theory Spec2Isabelle
  imports Main
begin

section \<open>Strings of the program\<close>

text \<open>
  A JavaScript string is a sequence of UTF-16 code units; \<open>length\<close>, \<open>substring\<close>,
  \<open>split\<close>, \<open>trim\<close> and the regular expressions of \<^verbatim>\<open>src/bot.js\<close> (none has the
  \<open>u\<close> flag) all work on code units. A code unit is modelled by its number, a string by
  the list of its code units.
\<close>

type_synonym code_unit = nat

type_synonym jsstring = "code_unit list"

definition ascii :: "string \<Rightarrow> jsstring" where
  "ascii s = map of_char s"

abbreviation (input) LF :: code_unit where "LF \<equiv> 10"

abbreviation (input) SP :: code_unit where "SP \<equiv> 32"

abbreviation (input) BACKTICK :: code_unit where "BACKTICK \<equiv> 96"

abbreviation (input) DOLLAR :: code_unit where "DOLLAR \<equiv> 36"

text \<open>
  The class \<open>\s\<close> of a regular expression and the characters removed by \<open>trim()\<close> are the
  same set: the white space and the line terminators of ECMAScript.
\<close>

definition isWhiteSpace :: "code_unit \<Rightarrow> bool" where
  "isWhiteSpace c \<longleftrightarrow>
     c = 9 \<or> c = 10 \<or> c = 11 \<or> c = 12 \<or> c = 13 \<or> c = 32 \<or> c = 160 \<or> c = 5760 \<or>
     (8192 \<le> c \<and> c \<le> 8202) \<or> c = 8232 \<or> c = 8233 \<or> c = 8239 \<or> c = 8287 \<or>
     c = 12288 \<or> c = 65279"

definition trim :: "jsstring \<Rightarrow> jsstring" where
  "trim s = rev (dropWhile isWhiteSpace (rev (dropWhile isWhiteSpace s)))"

text \<open>\<open>s.split(d)\<close> for a separator \<open>d\<close> of one code unit.\<close>

fun splitChar :: "code_unit \<Rightarrow> jsstring \<Rightarrow> jsstring list" where
  "splitChar d [] = [[]]"
| "splitChar d (c # cs) =
     (if c = d then [] # splitChar d cs
      else (case splitChar d cs of w # ws \<Rightarrow> (c # w) # ws | [] \<Rightarrow> [[c]]))"

text \<open>\<open>s.split('\n\n')\<close>: the occurrences of the separator are taken from left to right.\<close>

fun splitBlankLine :: "jsstring \<Rightarrow> jsstring list" where
  "splitBlankLine (c # d # cs) =
     (if c = LF \<and> d = LF then [] # splitBlankLine cs
      else (case splitBlankLine (d # cs) of w # ws \<Rightarrow> (c # w) # ws | [] \<Rightarrow> [[c]]))"
| "splitBlankLine cs = [cs]"

text \<open>
  \<open>paragraph.split(/(?<=[.!?])\s+/)\<close>: a separator is a maximal run of white space
  whose preceding code unit is one of \<open>.\<close>, \<open>!\<close>, \<open>?\<close>. The flag says whether the code
  unit before the current position is one of the three.
\<close>

definition isSentenceEnd :: "code_unit \<Rightarrow> bool" where
  "isSentenceEnd c \<longleftrightarrow> c = 46 \<or> c = 33 \<or> c = 63"

function splitSentences :: "bool \<Rightarrow> jsstring \<Rightarrow> jsstring list" where
  "splitSentences p [] = [[]]"
| "splitSentences p (c # cs) =
     (if p \<and> isWhiteSpace c then [] # splitSentences False (dropWhile isWhiteSpace cs)
      else (case splitSentences (isSentenceEnd c) cs of
              w # ws \<Rightarrow> (c # w) # ws | [] \<Rightarrow> [[c]]))"
  by pat_completeness auto
termination
  by (relation "measure (\<lambda>(p, s). length s)") (auto simp: length_dropWhile_le less_Suc_eq_le)

section \<open>The thresholds: products in binary64\<close>

text \<open>
  The source compares lengths with \<open>maxLength * 0.8\<close>, \<open>maxLength * 0.7\<close>,
  \<open>maxLength * 0.6\<close> and \<open>maxLength * 0.5\<close>, products of IEEE binary64 numbers. Each
  factor is \<open>sig / 2^53\<close> for the 53-bit significand \<open>sig\<close> of its nearest binary64 number;
  the product is the exact product rounded to 53 significant bits, ties to even. A
  binary64 value \<open>x\<close> is kept as the natural number \<open>x * 2^53\<close>. (So \<open>90 * 0.7\<close> is
  \<open>62.99999999999999\<close>, as in JavaScript, and a length of 63 is not below it.)
\<close>

fun bitlen :: "nat \<Rightarrow> nat" where
  "bitlen n = (if n = 0 then 0 else Suc (bitlen (n div 2)))"

declare bitlen.simps [simp del]

definition round53 :: "nat \<Rightarrow> nat" where
  "round53 N =
     (let sh = bitlen N - 53; q = N div 2 ^ sh; r = N mod 2 ^ sh
      in if 2 ^ sh < 2 * r \<or> (2 * r = 2 ^ sh \<and> odd q) then (q + 1) * 2 ^ sh else q * 2 ^ sh)"

definition sig08 :: nat where "sig08 = 7205759403792794"

definition sig07 :: nat where "sig07 = 6305039478318694"

definition sig06 :: nat where "sig06 = 5404319552844595"

definition sig05 :: nat where "sig05 = 4503599627370496"

definition mul_double :: "nat \<Rightarrow> nat \<Rightarrow> nat" where
  "mul_double maxLength sig = round53 (maxLength * sig)"

text \<open>
  \<open>Math.floor(x)\<close> for a binary64 value \<open>x\<close>, and \<open>n <= x\<close> and \<open>n > x\<close> for a length
  \<open>n\<close>: a whole number is at most \<open>x\<close> when it is at most the floor of \<open>x\<close>.
\<close>

definition floor_double :: "nat \<Rightarrow> nat" where
  "floor_double x = x div 2 ^ 53"

definition le_double :: "nat \<Rightarrow> nat \<Rightarrow> bool" where
  "le_double n x \<longleftrightarrow> n \<le> floor_double x"

definition gt_double :: "nat \<Rightarrow> nat \<Rightarrow> bool" where
  "gt_double n x \<longleftrightarrow> \<not> le_double n x"

section \<open>Protected spans\<close>

text \<open>Number to string, as the template literals do for an array index.\<close>

fun decimal :: "nat \<Rightarrow> jsstring" where
  "decimal n = (if n < 10 then [48 + n] else decimal (n div 10) @ [48 + n mod 10])"

declare decimal.simps [simp del]

definition codeBlockToken :: "nat \<Rightarrow> jsstring" where
  "codeBlockToken index = ascii ''___CODE_BLOCK_'' @ decimal index @ ascii ''___''"

definition inlineCodeToken :: "nat \<Rightarrow> jsstring" where
  "inlineCodeToken index = ascii ''___INLINE_CODE_'' @ decimal index @ ascii ''___''"

text \<open>
  \<open>findFence s\<close> cuts \<open>s\<close> at its first \<open>```\<close>: the text before it and the text after it.
\<close>

fun findFence :: "jsstring \<Rightarrow> (jsstring \<times> jsstring) option" where
  "findFence (a # b # c # cs) =
     (if a = BACKTICK \<and> b = BACKTICK \<and> c = BACKTICK then Some ([], cs)
      else map_option (\<lambda>(u, v). (a # u, v)) (findFence (b # c # cs)))"
| "findFence cs = None"

lemma findFence_length:
  "findFence s = Some (u, v) \<Longrightarrow> length u + 3 + length v = length s"
  by (induction s arbitrary: u rule: findFence.induct) (auto split: if_splits)

text \<open>
  \<open>text.replace(/```[\s\S]*?```/g, f)\<close>. A match starts at the first \<open>```\<close> and ends with
  the first \<open>```\<close> that starts three or more code units later (the quantifier is lazy); the
  search goes on behind the match. When the first \<open>```\<close> has no closing one, no later
  position can match either, and the rest is left as it is. The callback pushes the match
  and returns the token of its index; \<open>n\<close> is \<open>codeBlocks.length\<close> before the push.
\<close>

function extractCodeBlocks :: "jsstring \<Rightarrow> nat \<Rightarrow> jsstring \<times> jsstring list" where
  "extractCodeBlocks s n =
     (case findFence s of
        None \<Rightarrow> (s, [])
      | Some (preceding, rest) \<Rightarrow>
          (case findFence rest of
             None \<Rightarrow> (s, [])
           | Some (body, rest') \<Rightarrow>
               (case extractCodeBlocks rest' (Suc n) of
                  (t, blocks) \<Rightarrow>
                    (preceding @ codeBlockToken n @ t,
                     (ascii ''```'' @ body @ ascii ''```'') # blocks))))"
  by pat_completeness auto
termination
  by (relation "measure (\<lambda>(s, n). length s)") (auto dest!: findFence_length)

declare extractCodeBlocks.simps [simp del]

text \<open>
  After an opening backtick: the code units up to the next backtick, when no line feed
  comes before it.
\<close>

fun inlineBody :: "jsstring \<Rightarrow> (jsstring \<times> jsstring) option" where
  "inlineBody [] = None"
| "inlineBody (c # cs) =
     (if c = BACKTICK then Some ([], cs)
      else if c = LF then None
      else map_option (\<lambda>(u, v). (c # u, v)) (inlineBody cs))"

lemma inlineBody_length:
  "inlineBody s = Some (u, v) \<Longrightarrow> length u + 1 + length v = length s"
  by (induction s arbitrary: u) (auto split: if_splits)

text \<open>
  \<open>text.replace(/`([^`\n]+?)`/g, f)\<close>: a match is a backtick, one or more code units that
  are neither a backtick nor a line feed, and a backtick. A backtick that starts no match
  is copied and the search goes on behind it.
\<close>

function extractInlineCode :: "jsstring \<Rightarrow> nat \<Rightarrow> jsstring \<times> jsstring list" where
  "extractInlineCode [] n = ([], [])"
| "extractInlineCode (c # cs) n =
     (case (if c = BACKTICK then inlineBody cs else None) of
        Some (body, rest) \<Rightarrow>
          (if body \<noteq> [] then
             (case extractInlineCode rest (Suc n) of
                (t, spans) \<Rightarrow> (inlineCodeToken n @ t, (BACKTICK # body @ [BACKTICK]) # spans))
           else (case extractInlineCode cs n of (t, spans) \<Rightarrow> (c # t, spans)))
      | None \<Rightarrow> (case extractInlineCode cs n of (t, spans) \<Rightarrow> (c # t, spans)))"
  by pat_completeness auto
termination
  by (relation "measure (\<lambda>(s, n). length s)") (auto dest!: inlineBody_length split: if_splits)

text \<open>
  The replacement string of \<open>replace\<close> is a template: \<open>$$\<close> stands for a dollar sign,
  \<open>$&\<close> for the match, \<open>$`\<close> for the text before the match and \<open>$'\<close> for the text after
  it. The patterns here have no capture group, so \<open>$1\<close> and the like stand for themselves.
\<close>

fun getSubstitution :: "jsstring \<Rightarrow> jsstring \<Rightarrow> jsstring \<Rightarrow> jsstring \<Rightarrow> jsstring" where
  "getSubstitution matched preceding following (c # d # cs) =
     (if c = DOLLAR \<and> d = DOLLAR then DOLLAR # getSubstitution matched preceding following cs
      else if c = DOLLAR \<and> d = 38 then matched @ getSubstitution matched preceding following cs
      else if c = DOLLAR \<and> d = 96 then preceding @ getSubstitution matched preceding following cs
      else if c = DOLLAR \<and> d = 39 then following @ getSubstitution matched preceding following cs
      else c # getSubstitution matched preceding following (d # cs))"
| "getSubstitution matched preceding following cs = cs"

text \<open>
  \<open>s.replace(new RegExp(token, 'g'), replacement)\<close> for a token without special
  characters: every occurrence, from left to right, is replaced by the expanded template.
  \<open>preceding\<close> is the part of the original string already passed.
\<close>

function replaceAll :: "jsstring \<Rightarrow> jsstring \<Rightarrow> jsstring \<Rightarrow> jsstring \<Rightarrow> jsstring" where
  "replaceAll token replacement preceding [] = []"
| "replaceAll token replacement preceding (c # cs) =
     (if token \<noteq> [] \<and> take (length token) (c # cs) = token then
        getSubstitution token preceding (drop (length token) (c # cs)) replacement
        @ replaceAll token replacement (preceding @ token) (drop (length token) (c # cs))
      else c # replaceAll token replacement (preceding @ [c]) cs)"
  by pat_completeness auto
termination
  by (relation "measure (\<lambda>(t, r, b, s). length s)") auto

text \<open>
  The two \<open>forEach\<close> loops of the restoration: the inline spans first, then the code
  blocks, each index in turn on the result of the one before.
\<close>

fun restoreWith :: "(nat \<Rightarrow> jsstring) \<Rightarrow> nat \<Rightarrow> jsstring list \<Rightarrow> jsstring \<Rightarrow> jsstring" where
  "restoreWith token index [] restored = restored"
| "restoreWith token index (code # codes) restored =
     restoreWith token (Suc index) codes (replaceAll (token index) code [] restored)"

definition restoreChunk :: "jsstring list \<Rightarrow> jsstring list \<Rightarrow> jsstring \<Rightarrow> jsstring" where
  "restoreChunk inlineCodeBlocks codeBlocks chunk =
     restoreWith codeBlockToken 0 codeBlocks (restoreWith inlineCodeToken 0 inlineCodeBlocks chunk)"

section \<open>Segmentation\<close>

text \<open>
  \<open>currentChunk ? currentChunk + sep + x : x\<close> (the empty string is falsy), and
  \<open>if (currentChunk.trim()) chunks.push(currentChunk.trim())\<close>.
\<close>

definition joinWith :: "jsstring \<Rightarrow> jsstring \<Rightarrow> jsstring \<Rightarrow> jsstring" where
  "joinWith sep currentChunk x = (if currentChunk \<noteq> [] then currentChunk @ sep @ x else x)"

definition pushTrimmed :: "jsstring list \<Rightarrow> jsstring \<Rightarrow> jsstring list" where
  "pushTrimmed chunks currentChunk =
     (if trim currentChunk \<noteq> [] then chunks @ [trim currentChunk] else chunks)"

text \<open>
  \<open>chunks.push(...parts)\<close> passes the elements of \<open>parts\<close> as the arguments of one call.
  An engine passes only so many arguments in a call and throws a \<open>RangeError\<close> beyond
  that; the number is not in the source and is the parameter \<open>maxArguments\<close> of the model.
  In all the results below, \<open>None\<close> says that the call returns no value: that it throws,
  or that it does not end.
\<close>

definition spreadArguments :: "nat \<Rightarrow> jsstring list \<Rightarrow> jsstring list option" where
  "spreadArguments maxArguments parts =
     (if length parts \<le> maxArguments then Some parts else None)"

subsection \<open>splitSentence: the word tier\<close>

text \<open>
  The \<open>while\<close> loop that cuts a long word into slices of \<open>Math.floor(maxLength * 0.6)\<close>
  code units. It returns the chunks and the remaining word. When the slice length is 0 and
  the word is not empty, it pushes empty slices until the engine stops it: it returns
  nothing.
\<close>

partial_function (option) cutWord ::
  "nat \<Rightarrow> jsstring list \<Rightarrow> jsstring \<Rightarrow> (jsstring list \<times> jsstring) option" where
  "cutWord maxLength chunks remainingWord =
     (if gt_double (length remainingWord) (mul_double maxLength sig06) then
        cutWord maxLength
          (chunks @ [take (floor_double (mul_double maxLength sig06)) remainingWord])
          (drop (floor_double (mul_double maxLength sig06)) remainingWord)
      else Some (chunks, remainingWord))"

declare cutWord.simps [code]

fun splitSentenceLoop ::
  "nat \<Rightarrow> jsstring list \<Rightarrow> jsstring list \<Rightarrow> jsstring \<Rightarrow> jsstring list option" where
  "splitSentenceLoop maxLength [] chunks currentChunk = Some (pushTrimmed chunks currentChunk)"
| "splitSentenceLoop maxLength (word # ws) chunks currentChunk =
     (if le_double (length (joinWith [SP] currentChunk word)) (mul_double maxLength sig06) then
        splitSentenceLoop maxLength ws chunks (joinWith [SP] currentChunk word)
      else if gt_double (length word) (mul_double maxLength sig06) then
        (case cutWord maxLength (pushTrimmed chunks currentChunk) word of
           None \<Rightarrow> None
         | Some (chunks', remainingWord) \<Rightarrow> splitSentenceLoop maxLength ws chunks' remainingWord)
      else splitSentenceLoop maxLength ws (pushTrimmed chunks currentChunk) word)"

definition splitSentence :: "jsstring \<Rightarrow> nat \<Rightarrow> jsstring list option" where
  "splitSentence sentence maxLength = splitSentenceLoop maxLength (splitChar SP sentence) [] []"

subsection \<open>splitParagraph: the sentence tier\<close>

fun splitParagraphLoop ::
  "nat \<Rightarrow> nat \<Rightarrow> jsstring list \<Rightarrow> jsstring list \<Rightarrow> jsstring \<Rightarrow> jsstring list option" where
  "splitParagraphLoop maxArguments maxLength [] chunks currentChunk =
     Some (pushTrimmed chunks currentChunk)"
| "splitParagraphLoop maxArguments maxLength (sentence # ss) chunks currentChunk =
     (if le_double (length (joinWith [SP] currentChunk sentence)) (mul_double maxLength sig07) then
        splitParagraphLoop maxArguments maxLength ss chunks (joinWith [SP] currentChunk sentence)
      else if gt_double (length sentence) (mul_double maxLength sig05) then
        (case Option.bind (splitSentence sentence maxLength) (spreadArguments maxArguments) of
           None \<Rightarrow> None
         | Some parts \<Rightarrow>
             splitParagraphLoop maxArguments maxLength ss
               (pushTrimmed chunks currentChunk @ parts) [])
      else splitParagraphLoop maxArguments maxLength ss (pushTrimmed chunks currentChunk) sentence)"

definition splitParagraph :: "nat \<Rightarrow> jsstring \<Rightarrow> nat \<Rightarrow> jsstring list option" where
  "splitParagraph maxArguments paragraph maxLength =
     splitParagraphLoop maxArguments maxLength (splitSentences False paragraph) [] []"

subsection \<open>forceSplit: the line tier\<close>

text \<open>The inner \<open>while\<close> loop: slices of exactly \<open>maxLength\<close> code units.\<close>

partial_function (option) cutLongWord ::
  "nat \<Rightarrow> jsstring list \<Rightarrow> jsstring \<Rightarrow> (jsstring list \<times> jsstring) option" where
  "cutLongWord maxLength chunks remainingWord =
     (if length remainingWord > maxLength then
        cutLongWord maxLength (chunks @ [take maxLength remainingWord])
          (drop maxLength remainingWord)
      else Some (chunks, remainingWord))"

declare cutLongWord.simps [code]

text \<open>The loop over the words of a line that is longer than \<open>maxLength\<close>.\<close>

fun forceSplitWords ::
  "nat \<Rightarrow> jsstring list \<Rightarrow> jsstring list \<Rightarrow> jsstring \<Rightarrow> (jsstring list \<times> jsstring) option" where
  "forceSplitWords maxLength [] chunks lineChunk = Some (chunks, lineChunk)"
| "forceSplitWords maxLength (word # ws) chunks lineChunk =
     (if length (joinWith [SP] lineChunk word) \<le> maxLength then
        forceSplitWords maxLength ws chunks (joinWith [SP] lineChunk word)
      else if length word > maxLength then
        (case cutLongWord maxLength (pushTrimmed chunks lineChunk) word of
           None \<Rightarrow> None
         | Some (chunks', remainingWord) \<Rightarrow> forceSplitWords maxLength ws chunks' remainingWord)
      else forceSplitWords maxLength ws (pushTrimmed chunks lineChunk) word)"

fun forceSplitLoop ::
  "nat \<Rightarrow> jsstring list \<Rightarrow> jsstring list \<Rightarrow> jsstring \<Rightarrow> jsstring list option" where
  "forceSplitLoop maxLength [] chunks currentChunk = Some (pushTrimmed chunks currentChunk)"
| "forceSplitLoop maxLength (line # ls) chunks currentChunk =
     (if length (joinWith [LF] currentChunk line) \<le> maxLength then
        forceSplitLoop maxLength ls chunks (joinWith [LF] currentChunk line)
      else if length line > maxLength then
        (case forceSplitWords maxLength (splitChar SP line) (pushTrimmed chunks currentChunk) [] of
           None \<Rightarrow> None
         | Some (chunks', lineChunk) \<Rightarrow> forceSplitLoop maxLength ls chunks' lineChunk)
      else forceSplitLoop maxLength ls (pushTrimmed chunks currentChunk) line)"

definition forceSplit :: "jsstring \<Rightarrow> nat \<Rightarrow> jsstring list option" where
  "forceSplit text maxLength = forceSplitLoop maxLength (splitChar LF text) [] []"

subsection \<open>splitLongMessage: the paragraph tier, validation and restoration\<close>

fun paragraphLoop ::
  "nat \<Rightarrow> nat \<Rightarrow> jsstring list \<Rightarrow> jsstring list \<Rightarrow> jsstring \<Rightarrow> jsstring list option" where
  "paragraphLoop maxArguments maxLength [] chunks currentChunk =
     Some (pushTrimmed chunks currentChunk)"
| "paragraphLoop maxArguments maxLength (paragraph # ps) chunks currentChunk =
     (if le_double (length (joinWith [LF, LF] currentChunk paragraph)) (mul_double maxLength sig08) then
        paragraphLoop maxArguments maxLength ps chunks (joinWith [LF, LF] currentChunk paragraph)
      else if gt_double (length paragraph) (mul_double maxLength sig06) then
        (case Option.bind (splitParagraph maxArguments paragraph maxLength)
                (spreadArguments maxArguments) of
           None \<Rightarrow> None
         | Some parts \<Rightarrow>
             paragraphLoop maxArguments maxLength ps (pushTrimmed chunks currentChunk @ parts) [])
      else paragraphLoop maxArguments maxLength ps (pushTrimmed chunks currentChunk) paragraph)"

text \<open>
  The validation loop: a chunk longer than \<open>maxLength\<close> goes through \<open>forceSplit\<close>, and
  its parts are pushed in one call.
\<close>

fun validateChunks :: "nat \<Rightarrow> nat \<Rightarrow> jsstring list \<Rightarrow> jsstring list option" where
  "validateChunks maxArguments maxLength [] = Some []"
| "validateChunks maxArguments maxLength (chunk # cs) =
     (case (if length chunk > maxLength then
              Option.bind (forceSplit chunk maxLength) (spreadArguments maxArguments)
            else Some [chunk]) of
        None \<Rightarrow> None
      | Some parts \<Rightarrow>
          map_option (\<lambda>rest. parts @ rest) (validateChunks maxArguments maxLength cs))"

text \<open>
  The text with the code blocks, then the inline spans, replaced by their tokens, and the
  two tables.
\<close>

definition protectSpans :: "jsstring \<Rightarrow> jsstring \<times> jsstring list \<times> jsstring list" where
  "protectSpans text =
     (case extractCodeBlocks text 0 of
        (t, codeBlocks) \<Rightarrow>
          (case extractInlineCode t 0 of
             (textWithPlaceholders, inlineCodeBlocks) \<Rightarrow>
               (textWithPlaceholders, codeBlocks, inlineCodeBlocks)))"

text \<open>
  The result is \<open>None\<close> when the call returns no list. \<open>maxLength\<close> is the budget, a
  natural number; \<open>maxArguments\<close> is the number of arguments the engine passes in a call.
\<close>

definition splitLongMessage :: "nat \<Rightarrow> jsstring \<Rightarrow> nat \<Rightarrow> jsstring list option" where
  "splitLongMessage maxArguments text maxLength =
     (if length text \<le> maxLength then Some [text]
      else
        (case protectSpans text of
           (textWithPlaceholders, codeBlocks, inlineCodeBlocks) \<Rightarrow>
             (case paragraphLoop maxArguments maxLength (splitBlankLine textWithPlaceholders) [] [] of
                None \<Rightarrow> None
              | Some chunks \<Rightarrow>
                  (if length chunks = 1 \<and> length (hd chunks) > maxLength then
                     map_option (map (restoreChunk inlineCodeBlocks codeBlocks))
                       (forceSplit (hd chunks) maxLength)
                   else
                     (case validateChunks maxArguments maxLength chunks of
                        None \<Rightarrow> None
                      | Some validatedChunks \<Rightarrow>
                          (let restoredChunks =
                                 map (restoreChunk inlineCodeBlocks codeBlocks) validatedChunks
                           in Some (if restoredChunks \<noteq> [] then restoredChunks else [text])))))))"

section \<open>Regular expressions\<close>

text \<open>The classes \<open>\w\<close> and \<open>\d\<close>, and the line terminators, which \<open>.\<close> does not match.\<close>

definition isWordChar :: "code_unit \<Rightarrow> bool" where
  "isWordChar c \<longleftrightarrow> (65 \<le> c \<and> c \<le> 90) \<or> (97 \<le> c \<and> c \<le> 122) \<or> (48 \<le> c \<and> c \<le> 57) \<or> c = 95"

definition isDigit :: "code_unit \<Rightarrow> bool" where
  "isDigit c \<longleftrightarrow> 48 \<le> c \<and> c \<le> 57"

definition isLineTerminator :: "code_unit \<Rightarrow> bool" where
  "isLineTerminator c \<longleftrightarrow> c = 10 \<or> c = 13 \<or> c = 8232 \<or> c = 8233"

text \<open>
  \<open>^\<close> with the flag \<open>m\<close>: the start of the text or the position behind a line
  terminator. \<open>prev\<close> is the code unit before the position, if there is one.
\<close>

definition atLineStart :: "code_unit option \<Rightarrow> bool" where
  "atLineStart prev = (case prev of None \<Rightarrow> True | Some p \<Rightarrow> isLineTerminator p)"

text \<open>
  A matcher tells, for the code unit before a position and the text from the position on,
  whether the expression matches at the position: the length of the match and the text
  that replaces it.
\<close>

type_synonym matcher = "code_unit option \<Rightarrow> jsstring \<Rightarrow> (nat \<times> jsstring) option"

text \<open>
  \<open>s.replace(re, replacement)\<close> for an expression with the flag \<open>g\<close>: the positions are
  tried from left to right, a match is replaced and the search goes on behind it (one code
  unit further on after an empty match). No expression of the program matches the empty
  string, so nothing is added at the end of the text.
\<close>

function replaceRegex :: "matcher \<Rightarrow> code_unit option \<Rightarrow> jsstring \<Rightarrow> jsstring" where
  "replaceRegex m prev [] = []"
| "replaceRegex m prev (c # cs) =
     (case m prev (c # cs) of
        Some (k, replacement) \<Rightarrow>
          (if 0 < k then
             replacement @ replaceRegex m (Some (last (take k (c # cs)))) (drop k (c # cs))
           else replacement @ c # replaceRegex m (Some c) cs)
      | None \<Rightarrow> c # replaceRegex m (Some c) cs)"
  by pat_completeness auto
termination
  by (relation "measure (\<lambda>(m, prev, s). length s)") auto

text \<open>\<open>s.match(re) || []\<close> for an expression with the flag \<open>g\<close>: the matched texts.\<close>

function matchRegex :: "matcher \<Rightarrow> code_unit option \<Rightarrow> jsstring \<Rightarrow> jsstring list" where
  "matchRegex m prev [] = []"
| "matchRegex m prev (c # cs) =
     (case m prev (c # cs) of
        Some (k, replacement) \<Rightarrow>
          (if 0 < k then
             take k (c # cs) # matchRegex m (Some (last (take k (c # cs)))) (drop k (c # cs))
           else [] # matchRegex m (Some c) cs)
      | None \<Rightarrow> matchRegex m (Some c) cs)"
  by pat_completeness auto
termination
  by (relation "measure (\<lambda>(m, prev, s). length s)") auto

text \<open>
  \<open>.*?\<close> in front of a closing code unit \<open>d\<close>, or of a closing \<open>**\<close>: the shortest
  run of code units other than line terminators that the closing text follows.
\<close>

fun untilChar :: "code_unit \<Rightarrow> jsstring \<Rightarrow> (jsstring \<times> jsstring) option" where
  "untilChar d [] = None"
| "untilChar d (a # cs) =
     (if a = d then Some ([], cs)
      else if isLineTerminator a then None
      else map_option (\<lambda>(u, v). (a # u, v)) (untilChar d cs))"

fun untilStars :: "jsstring \<Rightarrow> (jsstring \<times> jsstring) option" where
  "untilStars (a # b # cs) =
     (if a = 42 \<and> b = 42 then Some ([], cs)
      else if isLineTerminator a then None
      else map_option (\<lambda>(u, v). (a # u, v)) (untilStars (b # cs)))"
| "untilStars cs = None"

text \<open>
  \<open>/```(\w+)?\n?([\s\S]*?)```/\<close>. The word and the line feed are taken when they are
  there (giving them back cannot help: a closing \<open>```\<close> starts with a backtick); the
  second group is the text up to the next \<open>```\<close>. \<open>f\<close> makes the replacement from it.
\<close>

definition fencedBlock :: "(jsstring \<Rightarrow> jsstring) \<Rightarrow> matcher" where
  "fencedBlock f prev s =
     (case s of
        a # b # c # s1 \<Rightarrow>
          (if a = BACKTICK \<and> b = BACKTICK \<and> c = BACKTICK then
             (let s2 = dropWhile isWordChar s1;
                  s3 = (case s2 of d # s2' \<Rightarrow> if d = LF then s2' else s2 | [] \<Rightarrow> [])
              in case findFence s3 of
                   Some (body, rest) \<Rightarrow> Some (length s - length rest, f body)
                 | None \<Rightarrow> None)
           else None)
      | _ \<Rightarrow> None)"

text \<open>\<open>/```[\s\S]*?```/\<close>, replaced by the empty string.\<close>

definition codeBlock :: matcher where
  "codeBlock prev s =
     (case s of
        a # b # c # s1 \<Rightarrow>
          (if a = BACKTICK \<and> b = BACKTICK \<and> c = BACKTICK then
             (case findFence s1 of
                Some (body, rest) \<Rightarrow> Some (length s - length rest, [])
              | None \<Rightarrow> None)
           else None)
      | _ \<Rightarrow> None)"

text \<open>\<open>/`([^`\n]+?)`/\<close>; \<open>f\<close> makes the replacement from the group.\<close>

definition inlineSpan :: "(jsstring \<Rightarrow> jsstring) \<Rightarrow> matcher" where
  "inlineSpan f prev s =
     (case s of
        c # cs \<Rightarrow>
          (if c = BACKTICK then
             (case inlineBody cs of
                Some (body, rest) \<Rightarrow> if body \<noteq> [] then Some (length body + 2, f body) else None
              | None \<Rightarrow> None)
           else None)
      | [] \<Rightarrow> None)"

text \<open>\<open>/\*\*(.*?)\*\*/\<close>, replaced by the group in thick brackets.\<close>

definition bold :: matcher where
  "bold prev s =
     (case s of
        a # b # s1 \<Rightarrow>
          (if a = 42 \<and> b = 42 then
             (case untilStars s1 of
                Some (body, rest) \<Rightarrow> Some (length body + 4, [12304] @ body @ [12305])
              | None \<Rightarrow> None)
           else None)
      | _ \<Rightarrow> None)"

text \<open>\<open>/\*(.*?)\*/\<close> and \<open>/_(.*?)_/\<close>, replaced by the group.\<close>

definition emphasis :: "code_unit \<Rightarrow> matcher" where
  "emphasis d prev s =
     (case s of
        a # s1 \<Rightarrow>
          (if a = d then
             (case untilChar d s1 of
                Some (body, rest) \<Rightarrow> Some (length body + 2, body)
              | None \<Rightarrow> None)
           else None)
      | [] \<Rightarrow> None)"

text \<open>
  \<open>/\[(.*?)\]\(.*?\)/\<close>: behind the bracket, the shortest label that \<open>](\<close>, a run without
  line terminator and \<open>)\<close> follow. The result is the label and the text behind the match.
\<close>

fun linkLabel :: "jsstring \<Rightarrow> (jsstring \<times> jsstring) option" where
  "linkLabel (a # b # cs) =
     (case (if a = 93 \<and> b = 40 then untilChar 41 cs else None) of
        Some (url, rest) \<Rightarrow> Some ([], rest)
      | None \<Rightarrow>
          (if isLineTerminator a then None
           else map_option (\<lambda>(u, v). (a # u, v)) (linkLabel (b # cs))))"
| "linkLabel cs = None"

definition link :: matcher where
  "link prev s =
     (case s of
        a # s1 \<Rightarrow>
          (if a = 91 then
             (case linkLabel s1 of
                Some (label, rest) \<Rightarrow> Some (length s - length rest, [55357, 56599] @ label)
              | None \<Rightarrow> None)
           else None)
      | [] \<Rightarrow> None)"

text \<open>
  \<open>/^#+\s*/m\<close>, \<open>/^\>\s*/m\<close>, \<open>/^\*\s*/m\<close> and \<open>/^\d+\.\s*/m\<close>: at the start of a line,
  a marker and the white space behind it (line feeds too).
\<close>

definition header :: matcher where
  "header prev s =
     (if atLineStart prev \<and> takeWhile (\<lambda>c. c = 35) s \<noteq> [] then
        Some (length (takeWhile (\<lambda>c. c = 35) s)
                + length (takeWhile isWhiteSpace (dropWhile (\<lambda>c. c = 35) s)), [9654, SP])
      else None)"

definition lineMarker :: "code_unit \<Rightarrow> jsstring \<Rightarrow> matcher" where
  "lineMarker d glyph prev s =
     (case s of
        a # s1 \<Rightarrow>
          (if atLineStart prev \<and> a = d then
             Some (1 + length (takeWhile isWhiteSpace s1), glyph @ [SP])
           else None)
      | [] \<Rightarrow> None)"

definition numbered :: matcher where
  "numbered prev s =
     (if atLineStart prev \<and> takeWhile isDigit s \<noteq> [] then
        (case dropWhile isDigit s of
           a # s1 \<Rightarrow>
             (if a = 46 then
                Some (length (takeWhile isDigit s) + 1 + length (takeWhile isWhiteSpace s1),
                      [9711, SP])
              else None)
         | [] \<Rightarrow> None)
      else None)"

text \<open>\<open>/\n{3,}/\<close>, replaced by two line feeds.\<close>

definition lineFeeds :: matcher where
  "lineFeeds prev s =
     (if 3 \<le> length (takeWhile (\<lambda>c. c = LF) s) then
        Some (length (takeWhile (\<lambda>c. c = LF) s), [LF, LF])
      else None)"

section \<open>markdownToPlainText\<close>

text \<open>
  The argument is a value of the language; \<open>text.replace\<close> throws a \<open>TypeError\<close> when
  \<open>text\<close> is \<open>undefined\<close> or \<open>null\<close>, and when it is a number, which has no such method.
\<close>

datatype jsvalue = JSUndefined | JSNull | JSNumber int | JSString jsstring

datatype error = TypeError

definition plainText :: "jsstring \<Rightarrow> jsstring" where
  "plainText text =
     replaceRegex lineFeeds None
      (replaceRegex numbered None
        (replaceRegex (lineMarker 42 [8226]) None
          (replaceRegex (lineMarker 62 [55357, 56492]) None
            (replaceRegex header None
              (replaceRegex link None
                (replaceRegex (emphasis 95) None
                  (replaceRegex (emphasis 42) None
                    (replaceRegex bold None
                      (replaceRegex (inlineSpan (\<lambda>body. [12310] @ body @ [12311])) None
                        (replaceRegex
                          (fencedBlock (\<lambda>body.
                             [12300] @ ascii ''CODE'' @ [12301, LF] @ body
                             @ [LF, 12300] @ ascii ''/CODE'' @ [12301]))
                          None text))))))))))"

definition markdownToPlainText :: "jsvalue \<Rightarrow> error + jsstring" where
  "markdownToPlainText text =
     (case text of JSString s \<Rightarrow> Inr (plainText s) | _ \<Rightarrow> Inl TypeError)"

section \<open>hasProblematicMarkdown\<close>

text \<open>\<open>(s.match(/\*\*/g) || []).length\<close>.\<close>

fun countBold :: "jsstring \<Rightarrow> nat" where
  "countBold (a # b # cs) =
     (if a = 42 \<and> b = 42 then Suc (countBold cs) else countBold (b # cs))"
| "countBold cs = 0"

text \<open>
  \<open>/(?<!\w)_(?!\w)|(?!\w)_(?=\w)/\<close>: an underscore with no word character before it and
  none behind it, or (the second alternative, which asks that the underscore itself be no
  word character) nothing.
\<close>

definition underscore :: matcher where
  "underscore prev s =
     (case s of
        a # s1 \<Rightarrow>
          (if (a = 95 \<and> \<not> (case prev of None \<Rightarrow> False | Some p \<Rightarrow> isWordChar p)
                 \<and> \<not> (case s1 of [] \<Rightarrow> False | b # s2 \<Rightarrow> isWordChar b))
              \<or> (\<not> isWordChar a \<and> a = 95 \<and> (case s1 of [] \<Rightarrow> False | b # s2 \<Rightarrow> isWordChar b))
           then Some (1, []) else None)
      | [] \<Rightarrow> None)"

text \<open>\<open>/\[([^\]]*)\]\([^)]*\)/\<close>, the link pattern of the checker.\<close>

definition linkPattern :: matcher where
  "linkPattern prev s =
     (case s of
        a # s1 \<Rightarrow>
          (if a = 91 then
             (case dropWhile (\<lambda>c. c \<noteq> 93) s1 of
                b # c # s2 \<Rightarrow>
                  (if c = 40 then
                     (case dropWhile (\<lambda>c. c \<noteq> 41) s2 of
                        d # rest \<Rightarrow> Some (length s - length rest, [])
                      | [] \<Rightarrow> None)
                   else None)
              | _ \<Rightarrow> None)
           else None)
      | [] \<Rightarrow> None)"

definition textToAnalyze :: "jsstring \<Rightarrow> jsstring" where
  "textToAnalyze text =
     replaceRegex (inlineSpan (\<lambda>body. [])) None (replaceRegex codeBlock None text)"

text \<open>The three values that the function computes for the links and does not use.\<close>

definition links :: "jsstring \<Rightarrow> jsstring list" where
  "links t = matchRegex linkPattern None t"

definition openParensInLinks :: "jsstring \<Rightarrow> nat" where
  "openParensInLinks t = count_list (concat (links t)) 40"

definition closeParensInLinks :: "jsstring \<Rightarrow> nat" where
  "closeParensInLinks t = count_list (concat (links t)) 41"

definition hasProblematicMarkdown :: "jsstring \<Rightarrow> bool" where
  "hasProblematicMarkdown text =
     (let t = textToAnalyze text;
          totalAsterisk = count_list t 42;
          boldCount = countBold t;
          italicAsterisk = totalAsterisk - boldCount * 2;
          underscores = length (matchRegex underscore None t);
          openBrackets = count_list t 91;
          closeBrackets = count_list t 93;
          totalOpenParens = count_list t 40;
          totalCloseParens = count_list t 41
      in if totalAsterisk \<noteq> 0 \<and> (boldCount mod 2 \<noteq> 0 \<or> italicAsterisk mod 2 \<noteq> 0) then True
         else if underscores \<noteq> 0 \<and> underscores mod 2 \<noteq> 0 then True
         else if openBrackets \<noteq> closeBrackets then True
         else if totalOpenParens \<noteq> totalCloseParens then True
         else False)"

section \<open>Notions used in the statements\<close>

text \<open>The code units of a string that are not white space, in their order.\<close>

definition nonWhiteSpace :: "jsstring \<Rightarrow> jsstring" where
  "nonWhiteSpace s = filter (\<lambda>c. \<not> isWhiteSpace c) s"

text \<open>Two line feeds next to each other somewhere in the string.\<close>

fun adjacentLF :: "jsstring \<Rightarrow> bool" where
  "adjacentLF (a # b # cs) = ((a = LF \<and> b = LF) \<or> adjacentLF (b # cs))"
| "adjacentLF cs = False"

text \<open>
  A text is the chunks with white space before, between and after them: what ``the text
  itself, up to white space trimmed where it is cut'' says of a list of chunks.
\<close>

fun weave :: "jsstring list \<Rightarrow> jsstring list \<Rightarrow> jsstring" where
  "weave (g # gs) (c # cs) = g @ c @ weave gs cs"
| "weave gs [] = concat gs"
| "weave [] cs = concat cs"

definition reassembles :: "jsstring \<Rightarrow> jsstring list \<Rightarrow> bool" where
  "reassembles text chunks \<longleftrightarrow>
     (\<exists>gaps. length gaps = Suc (length chunks) \<and> list_all (list_all isWhiteSpace) gaps \<and>
        weave gaps chunks = text)"

text \<open>
  \<open>parts.join(sep)\<close>, and the strings of a list each behind the separator:
  \<open>joinStrings sep (x # xs)\<close> is \<open>x\<close> followed by \<open>prefixed sep xs\<close>.
\<close>

fun joinStrings :: "jsstring \<Rightarrow> jsstring list \<Rightarrow> jsstring" where
  "joinStrings sep [] = []"
| "joinStrings sep [x] = x"
| "joinStrings sep (x # y # ys) = x @ sep @ joinStrings sep (y # ys)"

fun prefixed :: "jsstring \<Rightarrow> jsstring list \<Rightarrow> jsstring" where
  "prefixed sep [] = []"
| "prefixed sep (x # xs) = sep @ x @ prefixed sep xs"

text \<open>
  A paragraph in which every run of white space that follows \<open>.\<close>, \<open>!\<close> or \<open>?\<close> is
  replaced by one space: \<open>paragraph.split(/(?<=[.!?])\s+/).join(' ')\<close>.
\<close>

definition respace :: "jsstring \<Rightarrow> jsstring" where
  "respace paragraph = joinStrings [SP] (splitSentences False paragraph)"

section \<open>Example inputs\<close>

text \<open>
  An argument limit for the examples: 65535, which the engines in use all pass.
\<close>

definition exampleArguments :: nat where
  "exampleArguments = 65535"

text \<open>Two inline code spans of 29 code units each, 59 code units in all.\<close>

definition twoCommands :: jsstring where
  "twoCommands = ascii ''`npm install --save telegraf` `node src/index.js --verbose`''"

text \<open>A fenced code block of 51 code units.\<close>

definition longFence :: jsstring where
  "longFence = ascii ''```let total = items.reduce((a, b) => a + b, 0);```''"

text \<open>Two paragraphs; the second one has two sentences on two lines.\<close>

definition twoParagraphs :: jsstring where
  "twoParagraphs = ascii ''Hello!'' @ [LF, LF] @ ascii ''Hi.'' @ [LF] @ ascii ''Ok.''"

text \<open>A text that holds the token of the first code block, and a code block.\<close>

definition literalToken :: jsstring where
  "literalToken = ascii ''See ___CODE_BLOCK_0___'' @ [LF, LF] @ ascii ''```print(1)```''"

text \<open>An inline span that reads as the pattern \<open>$&\<close> of a replacement string.\<close>

definition matchedText :: jsstring where
  "matchedText =
     ascii ''Use `$&` in the replace call.'' @ [LF, LF] @ ascii ''It is the matched text.''"

text \<open>
  1195 letters \<open>a\<close>, a fenced block of seven code units and 1000 letters \<open>b\<close>, without a
  space: 2202 code units.
\<close>

definition fenceInWord :: jsstring where
  "fenceInWord = replicate 1195 97 @ ascii ''```x```'' @ replicate 1000 98"

text \<open>A link whose address has an opening parenthesis, and a link to an encyclopedia.\<close>

definition unclosedInLink :: jsstring where
  "unclosedInLink = ascii ''[a](b(c)''"

definition wikiLink :: jsstring where
  "wikiLink = ascii ''[Rust](https://en.wikipedia.org/wiki/Rust_(programming_language))''"

text \<open>A text of markup delimiters only.\<close>

definition delimitersOnly :: jsstring where
  "delimitersOnly = ascii ''**_*`[]()#>''"

section \<open>Unfolding the loops on a given input\<close>

lemma cutWord_step:
  "gt_double (length w) (mul_double maxLength sig06) \<Longrightarrow>
   cutWord maxLength chunks w =
     cutWord maxLength (chunks @ [take (floor_double (mul_double maxLength sig06)) w])
       (drop (floor_double (mul_double maxLength sig06)) w)"
  by (subst cutWord.simps) simp

lemma cutWord_done:
  "\<not> gt_double (length w) (mul_double maxLength sig06) \<Longrightarrow>
   cutWord maxLength chunks w = Some (chunks, w)"
  by (subst cutWord.simps) simp

lemma cutLongWord_step:
  "maxLength < length w \<Longrightarrow>
   cutLongWord maxLength chunks w =
     cutLongWord maxLength (chunks @ [take maxLength w]) (drop maxLength w)"
  by (subst cutLongWord.simps) simp

lemma cutLongWord_done:
  "\<not> maxLength < length w \<Longrightarrow> cutLongWord maxLength chunks w = Some (chunks, w)"
  by (subst cutLongWord.simps) simp

lemma bind_spreadArguments [simp]:
  "Option.bind x (spreadArguments maxArguments) = Some parts \<longleftrightarrow>
     x = Some parts \<and> length parts \<le> maxArguments"
  by (cases x) (auto simp: spreadArguments_def)

lemmas eval_defs =
  ascii_def isWhiteSpace_def trim_def isSentenceEnd_def
  bitlen.simps round53_def Let_def sig08_def sig07_def sig06_def sig05_def
  mul_double_def floor_double_def le_double_def gt_double_def
  decimal.simps codeBlockToken_def inlineCodeToken_def extractCodeBlocks.simps
  protectSpans_def restoreChunk_def joinWith_def pushTrimmed_def
  spreadArguments_def exampleArguments_def
  splitSentence_def splitParagraph_def forceSplit_def splitLongMessage_def

lemmas eval_simps = eval_defs cutWord_step cutWord_done cutLongWord_step cutLongWord_done

lemmas regex_defs =
  ascii_def isWhiteSpace_def isWordChar_def isDigit_def isLineTerminator_def atLineStart_def
  fencedBlock_def codeBlock_def inlineSpan_def bold_def emphasis_def link_def header_def
  lineMarker_def numbered_def lineFeeds_def underscore_def linkPattern_def
  links_def openParensInLinks_def closeParensInLinks_def Let_def

section \<open>Rounding: the thresholds stay below the budget\<close>

lemma bitlen_lower: "0 < n \<Longrightarrow> 2 ^ (bitlen n - 1) \<le> n"
proof (induction n rule: bitlen.induct)
  case (1 n)
  show ?case
  proof (cases "n div 2 = 0")
    case True
    with 1(2) have "n = 1" by (simp add: div_eq_0_iff)
    then show ?thesis by (simp add: bitlen.simps [of "Suc 0"] bitlen.simps [of 0])
  next
    case False
    then have "2 ^ (bitlen (n div 2) - 1) \<le> n div 2" using 1 by simp
    moreover have "bitlen n = Suc (bitlen (n div 2))" using 1(2) by (simp add: bitlen.simps [of n])
    moreover have "0 < bitlen (n div 2)" using False by (simp add: bitlen.simps [of "n div 2"])
    ultimately have "2 ^ (bitlen n - 1) \<le> 2 * (n div 2)"
      by (cases "bitlen (n div 2)") simp_all
    then show ?thesis by linarith
  qed
qed

lemma round53_cases:
  obtains (exact) "round53 N = N"
  | (rounded) X where "X * 2 ^ 52 \<le> N" "2 * round53 N \<le> 2 * N + X" "2 * N \<le> 2 * round53 N + X"
proof (cases "bitlen N - 53 = 0")
  case True
  then have "round53 N = N" by (simp add: round53_def)
  then show ?thesis by (rule exact)
next
  case False
  define sh where "sh = bitlen N - 53"
  define X :: nat where "X = 2 ^ sh"
  define m where "m = (N div X) * X"
  define r where "r = N mod X"
  have sh: "0 < sh" "bitlen N = sh + 53" using False by (simp_all add: sh_def)
  then have "0 < N" by (cases "N = 0") (simp_all add: bitlen.simps [of 0])
  then have "2 ^ (bitlen N - 1) \<le> N" by (rule bitlen_lower)
  then have big: "X * 2 ^ 52 \<le> N" by (simp add: sh X_def power_add)
  have N: "N = m + r" by (simp add: m_def r_def)
  have r: "r < X" by (simp add: r_def X_def)
  have R: "round53 N = (if X < 2 * r \<or> (2 * r = X \<and> odd (N div X)) then m + X else m)"
    by (simp add: round53_def Let_def sh_def [symmetric] X_def [symmetric] m_def r_def)
  have "2 * round53 N \<le> 2 * (m + r) + X" "2 * (m + r) \<le> 2 * round53 N + X"
    using r by (auto simp: R)
  then have "2 * round53 N \<le> 2 * N + X" "2 * N \<le> 2 * round53 N + X"
    using N by simp_all
  with big show ?thesis by (rule rounded)
qed

lemma round53_upper: "2 ^ 53 * round53 N \<le> (2 ^ 53 + 1) * N"
proof (cases N rule: round53_cases)
  case exact
  then show ?thesis by simp
next
  case (rounded X)
  then show ?thesis by simp
qed

lemma round53_lower: "(2 ^ 53 - 1) * N \<le> 2 ^ 53 * round53 N"
proof (cases N rule: round53_cases)
  case exact
  then show ?thesis by simp
next
  case (rounded X)
  then show ?thesis by simp
qed

lemma le_double_le:
  assumes "le_double n (mul_double maxLength sig)" "sig \<le> sig08"
  shows "n \<le> maxLength"
proof -
  have "2 ^ 53 * round53 (maxLength * sig) \<le> (2 ^ 53 + 1) * (maxLength * sig)"
    by (rule round53_upper)
  also have "\<dots> \<le> (2 ^ 53 + 1) * (maxLength * sig08)" using assms(2) by simp
  also have "\<dots> \<le> 2 ^ 53 * (maxLength * 2 ^ 53)" by (simp add: sig08_def)
  finally have "round53 (maxLength * sig) \<le> maxLength * 2 ^ 53" by simp
  then have "round53 (maxLength * sig) div 2 ^ 53 \<le> maxLength"
    by (simp add: div_le_mono [of _ "maxLength * 2 ^ 53" "2 ^ 53", simplified])
  with assms(1) show ?thesis by (simp add: le_double_def floor_double_def mul_double_def)
qed

lemma floor06_pos:
  assumes "2 \<le> maxLength"
  shows "1 \<le> floor_double (mul_double maxLength sig06)"
proof -
  have "(2 ^ 53 - 1) * (2 * sig06) \<le> (2 ^ 53 - 1) * (maxLength * sig06)"
    using assms by simp
  also have "\<dots> \<le> 2 ^ 53 * round53 (maxLength * sig06)" by (rule round53_lower)
  finally have "2 ^ 53 \<le> round53 (maxLength * sig06)" by (simp add: sig06_def)
  then show ?thesis by (simp add: floor_double_def mul_double_def div_greater_zero_iff Suc_le_eq)
qed

section \<open>Every tier keeps its chunks within the budget\<close>

lemma length_trim_le: "length (trim s) \<le> length s"
proof -
  have "length (dropWhile isWhiteSpace (rev (dropWhile isWhiteSpace s)))
          \<le> length (rev (dropWhile isWhiteSpace s))"
    by (rule length_dropWhile_le)
  also have "\<dots> \<le> length s" by (simp add: length_dropWhile_le)
  finally show ?thesis by (simp add: trim_def)
qed

lemma pushTrimmed_bound:
  assumes "\<forall>c\<in>set chunks. length c \<le> n" "length cur \<le> n"
  shows "\<forall>c\<in>set (pushTrimmed chunks cur). length c \<le> n"
  using assms length_trim_le [of cur] by (auto simp: pushTrimmed_def)

lemma gt_double_floor: "gt_double n x \<Longrightarrow> floor_double x < n"
  by (simp add: gt_double_def le_double_def)

lemma le_double_floor: "le_double (floor_double x) x"
  by (simp add: le_double_def)

lemma cutWord_result_aux:
  "cutWord maxLength chunks w = Some y \<Longrightarrow>
   \<exists>slices. fst y = chunks @ slices \<and> concat slices @ snd y = w \<and>
           (\<forall>c\<in>set slices. length c = floor_double (mul_double maxLength sig06)) \<and>
           le_double (length (snd y)) (mul_double maxLength sig06)"
proof (induction maxLength chunks w y rule: cutWord.raw_induct [rotated 1, consumes 1])
  case (1 cutWord' maxLength chunks w y)
  let ?x = "mul_double maxLength sig06"
  let ?k = "floor_double ?x"
  show ?case
  proof (cases "gt_double (length w) ?x")
    case True
    with 1(2) have "cutWord' maxLength (chunks @ [take ?k w]) (drop ?k w) = Some y"
      by simp
    from 1(1) [OF this] obtain slices where s:
      "fst y = (chunks @ [take ?k w]) @ slices" "concat slices @ snd y = drop ?k w"
      "\<forall>c\<in>set slices. length c = ?k" "le_double (length (snd y)) ?x"
      by blast
    have "?k < length w" using True by (rule gt_double_floor)
    then have "length (take ?k w) = ?k" by simp
    with s have "fst y = chunks @ (take ?k w # slices) \<and>
      concat (take ?k w # slices) @ snd y = w \<and>
      (\<forall>c\<in>set (take ?k w # slices). length c = ?k) \<and> le_double (length (snd y)) ?x"
      by simp
    then show ?thesis by blast
  next
    case False
    with 1(2) have "fst y = chunks" "snd y = w" by auto
    with False show ?thesis by (simp add: gt_double_def)
  qed
qed

lemma cutWord_result:
  assumes "cutWord maxLength chunks w = Some (chunks', w')"
  shows "\<exists>slices. chunks' = chunks @ slices \<and> concat slices @ w' = w \<and>
           (\<forall>c\<in>set slices. length c = floor_double (mul_double maxLength sig06)) \<and>
           le_double (length w') (mul_double maxLength sig06)"
  using cutWord_result_aux [OF assms] by simp

lemma cutWord_returns:
  assumes "1 \<le> floor_double (mul_double maxLength sig06)"
  shows "\<exists>r. cutWord maxLength chunks w = Some r"
proof (induction "length w" arbitrary: w chunks rule: less_induct)
  case less
  let ?x = "mul_double maxLength sig06"
  let ?k = "floor_double ?x"
  show ?case
  proof (cases "gt_double (length w) ?x")
    case True
    then have "?k < length w" by (rule gt_double_floor)
    with assms have "length (drop ?k w) < length w" by simp
    from less [OF this] obtain r where
      "cutWord maxLength (chunks @ [take ?k w]) (drop ?k w) = Some r" by blast
    with True show ?thesis by (subst cutWord.simps) simp
  next
    case False
    then show ?thesis by (subst cutWord.simps) simp
  qed
qed

lemma sig_le [simp]: "sig05 \<le> sig08" "sig06 \<le> sig08" "sig07 \<le> sig08" "sig08 \<le> sig08"
  by (simp_all add: sig05_def sig06_def sig07_def sig08_def)

lemma not_gt_double_le:
  assumes "\<not> gt_double n (mul_double maxLength sig)" "sig \<le> sig08"
  shows "n \<le> maxLength"
  using assms by (auto simp: gt_double_def intro: le_double_le)

lemma cutWord_bound:
  assumes "cutWord maxLength chunks w = Some (chunks', w')"
    and "\<forall>c\<in>set chunks. length c \<le> maxLength"
  shows "(\<forall>c\<in>set chunks'. length c \<le> maxLength) \<and> length w' \<le> maxLength"
proof -
  from cutWord_result [OF assms(1)] obtain slices where s:
    "chunks' = chunks @ slices"
    "\<forall>c\<in>set slices. length c = floor_double (mul_double maxLength sig06)"
    "le_double (length w') (mul_double maxLength sig06)"
    by blast
  have "floor_double (mul_double maxLength sig06) \<le> maxLength"
    using le_double_floor by (rule le_double_le) simp
  moreover have "length w' \<le> maxLength" using s(3) by (rule le_double_le) simp
  ultimately show ?thesis using s(1,2) assms(2) by auto
qed

lemma splitSentenceLoop_bound:
  assumes "splitSentenceLoop maxLength ws chunks cur = Some out"
    and "\<forall>c\<in>set chunks. length c \<le> maxLength" and "length cur \<le> maxLength"
  shows "\<forall>c\<in>set out. length c \<le> maxLength"
  using assms
proof (induction ws arbitrary: chunks cur)
  case Nil
  then show ?case using pushTrimmed_bound [of chunks maxLength cur] by simp
next
  case (Cons word ws)
  let ?x = "mul_double maxLength sig06"
  let ?joined = "joinWith [SP] cur word"
  note pushed = pushTrimmed_bound [OF Cons.prems(2,3)]
  consider (join) "le_double (length ?joined) ?x"
    | (cut) "\<not> le_double (length ?joined) ?x" "gt_double (length word) ?x"
    | (start) "\<not> le_double (length ?joined) ?x" "\<not> gt_double (length word) ?x"
    by blast
  then show ?case
  proof cases
    case join
    then have "length ?joined \<le> maxLength" by (rule le_double_le) simp
    moreover from join Cons.prems(1)
    have "splitSentenceLoop maxLength ws chunks ?joined = Some out" by simp
    ultimately show ?thesis using Cons.IH Cons.prems(2) by blast
  next
    case cut
    with Cons.prems(1) obtain chunks' w' where
      c: "cutWord maxLength (pushTrimmed chunks cur) word = Some (chunks', w')"
      and l: "splitSentenceLoop maxLength ws chunks' w' = Some out"
      by (auto split: option.splits)
    from cutWord_bound [OF c pushed] l show ?thesis using Cons.IH by blast
  next
    case start
    then have "length word \<le> maxLength" using not_gt_double_le by simp
    moreover from start Cons.prems(1)
    have "splitSentenceLoop maxLength ws (pushTrimmed chunks cur) word = Some out" by simp
    ultimately show ?thesis using Cons.IH pushed by blast
  qed
qed

lemma splitSentence_bound:
  assumes "splitSentence sentence maxLength = Some out"
  shows "\<forall>c\<in>set out. length c \<le> maxLength"
  using assms splitSentenceLoop_bound [of maxLength _ "[]" "[]" out]
  by (simp add: splitSentence_def)

lemma splitParagraphLoop_bound:
  assumes "splitParagraphLoop maxArguments maxLength ss chunks cur = Some out"
    and "\<forall>c\<in>set chunks. length c \<le> maxLength" and "length cur \<le> maxLength"
  shows "\<forall>c\<in>set out. length c \<le> maxLength"
  using assms
proof (induction ss arbitrary: chunks cur)
  case Nil
  then show ?case using pushTrimmed_bound [of chunks maxLength cur] by simp
next
  case (Cons sentence ss)
  let ?joined = "joinWith [SP] cur sentence"
  note pushed = pushTrimmed_bound [OF Cons.prems(2,3)]
  consider (join) "le_double (length ?joined) (mul_double maxLength sig07)"
    | (divide) "\<not> le_double (length ?joined) (mul_double maxLength sig07)"
        "gt_double (length sentence) (mul_double maxLength sig05)"
    | (start) "\<not> le_double (length ?joined) (mul_double maxLength sig07)"
        "\<not> gt_double (length sentence) (mul_double maxLength sig05)"
    by blast
  then show ?case
  proof cases
    case join
    then have "length ?joined \<le> maxLength" by (rule le_double_le) simp
    moreover from join Cons.prems(1)
    have "splitParagraphLoop maxArguments maxLength ss chunks ?joined = Some out" by simp
    ultimately show ?thesis using Cons.IH Cons.prems(2) by blast
  next
    case divide
    with Cons.prems(1) obtain parts where
      p: "splitSentence sentence maxLength = Some parts"
      and l: "splitParagraphLoop maxArguments maxLength ss (pushTrimmed chunks cur @ parts) [] = Some out"
      by (auto split: option.splits)
    from splitSentence_bound [OF p] pushed
    have "\<forall>c\<in>set (pushTrimmed chunks cur @ parts). length c \<le> maxLength" by auto
    with l show ?thesis using Cons.IH by force
  next
    case start
    then have "length sentence \<le> maxLength" using not_gt_double_le by simp
    moreover from start Cons.prems(1)
    have "splitParagraphLoop maxArguments maxLength ss (pushTrimmed chunks cur) sentence = Some out" by simp
    ultimately show ?thesis using Cons.IH pushed by blast
  qed
qed

lemma splitParagraph_bound:
  assumes "splitParagraph maxArguments paragraph maxLength = Some out"
  shows "\<forall>c\<in>set out. length c \<le> maxLength"
  using assms splitParagraphLoop_bound [of maxArguments maxLength _ "[]" "[]" out]
  by (simp add: splitParagraph_def)

lemma paragraphLoop_bound:
  assumes "paragraphLoop maxArguments maxLength ps chunks cur = Some out"
    and "\<forall>c\<in>set chunks. length c \<le> maxLength" and "length cur \<le> maxLength"
  shows "\<forall>c\<in>set out. length c \<le> maxLength"
  using assms
proof (induction ps arbitrary: chunks cur)
  case Nil
  then show ?case using pushTrimmed_bound [of chunks maxLength cur] by simp
next
  case (Cons para ps)
  let ?joined = "joinWith [LF, LF] cur para"
  note pushed = pushTrimmed_bound [OF Cons.prems(2,3)]
  consider (join) "le_double (length ?joined) (mul_double maxLength sig08)"
    | (divide) "\<not> le_double (length ?joined) (mul_double maxLength sig08)"
        "gt_double (length para) (mul_double maxLength sig06)"
    | (start) "\<not> le_double (length ?joined) (mul_double maxLength sig08)"
        "\<not> gt_double (length para) (mul_double maxLength sig06)"
    by blast
  then show ?case
  proof cases
    case join
    then have "length ?joined \<le> maxLength" by (rule le_double_le) simp
    moreover from join Cons.prems(1)
    have "paragraphLoop maxArguments maxLength ps chunks ?joined = Some out" by simp
    ultimately show ?thesis using Cons.IH Cons.prems(2) by blast
  next
    case divide
    with Cons.prems(1) obtain parts where
      p: "splitParagraph maxArguments para maxLength = Some parts"
      and l: "paragraphLoop maxArguments maxLength ps (pushTrimmed chunks cur @ parts) [] = Some out"
      by (auto split: option.splits)
    from splitParagraph_bound [OF p] pushed
    have "\<forall>c\<in>set (pushTrimmed chunks cur @ parts). length c \<le> maxLength" by auto
    with l show ?thesis using Cons.IH by force
  next
    case start
    then have "length para \<le> maxLength" using not_gt_double_le by simp
    moreover from start Cons.prems(1)
    have "paragraphLoop maxArguments maxLength ps (pushTrimmed chunks cur) para = Some out" by simp
    ultimately show ?thesis using Cons.IH pushed by blast
  qed
qed

lemma validateChunks_within:
  assumes "\<forall>c\<in>set chunks. length c \<le> maxLength"
  shows "validateChunks maxArguments maxLength chunks = Some chunks"
  using assms by (induction chunks) simp_all

section \<open>The number of chunks\<close>

lemma length_le_concat: "\<forall>c\<in>set xs. c \<noteq> [] \<Longrightarrow> length xs \<le> length (concat xs)"
proof (induction xs)
  case Nil
  show ?case by simp
next
  case (Cons x xs)
  then have "1 \<le> length x" by (cases x) simp_all
  with Cons show ?case by simp
qed

lemma pushTrimmed_nonempty:
  "\<forall>c\<in>set chunks. c \<noteq> [] \<Longrightarrow> \<forall>c\<in>set (pushTrimmed chunks cur). c \<noteq> []"
  by (simp add: pushTrimmed_def)

lemma pushTrimmed_length:
  "length (concat (pushTrimmed chunks cur)) \<le> length (concat chunks) + length cur"
  using length_trim_le [of cur] by (simp add: pushTrimmed_def)

lemma length_joinWith: "length (joinWith sep cur x) \<le> length cur + (length sep + length x)"
  by (simp add: joinWith_def)

lemma cutWord_count:
  assumes "cutWord maxLength chunks w = Some (chunks', w')"
    and "1 \<le> floor_double (mul_double maxLength sig06)"
    and "\<forall>c\<in>set chunks. c \<noteq> []"
  shows "(\<forall>c\<in>set chunks'. c \<noteq> []) \<and>
    length (concat chunks') + length w' = length (concat chunks) + length w"
proof -
  from cutWord_result [OF assms(1)] obtain slices where s:
    "chunks' = chunks @ slices" "concat slices @ w' = w"
    "\<forall>c\<in>set slices. length c = floor_double (mul_double maxLength sig06)"
    by blast
  from s(3) assms(2) have "\<forall>c\<in>set slices. c \<noteq> []" by auto
  moreover from s(2) have "length (concat slices) + length w' = length w"
    by (metis length_append)
  ultimately show ?thesis using s(1) assms(3) by auto
qed

lemma splitSentenceLoop_count:
  assumes "splitSentenceLoop maxLength ws chunks cur = Some out"
    and "1 \<le> floor_double (mul_double maxLength sig06)"
    and "\<forall>c\<in>set chunks. c \<noteq> []"
  shows "(\<forall>c\<in>set out. c \<noteq> []) \<and>
    length (concat out)
      \<le> length (concat chunks) + length cur + sum_list (map (\<lambda>w. Suc (length w)) ws)"
  using assms(1,3)
proof (induction ws arbitrary: chunks cur)
  case Nil
  then show ?case using pushTrimmed_nonempty [of chunks cur] pushTrimmed_length [of chunks cur]
    by simp
next
  case (Cons word ws)
  let ?x = "mul_double maxLength sig06"
  let ?joined = "joinWith [SP] cur word"
  let ?rest = "sum_list (map (\<lambda>w. Suc (length w)) ws)"
  note pushed = pushTrimmed_nonempty [OF Cons.prems(2), of cur]
  note len = pushTrimmed_length [of chunks cur]
  consider (join) "le_double (length ?joined) ?x"
    | (cut) "\<not> le_double (length ?joined) ?x" "gt_double (length word) ?x"
    | (start) "\<not> le_double (length ?joined) ?x" "\<not> gt_double (length word) ?x"
    by blast
  then show ?case
  proof cases
    case join
    with Cons.prems(1)
    have "splitSentenceLoop maxLength ws chunks ?joined = Some out" by simp
    from Cons.IH [OF this Cons.prems(2)] length_joinWith [of "[SP]" cur word]
    show ?thesis by simp
  next
    case cut
    with Cons.prems(1) obtain chunks' w' where
      c: "cutWord maxLength (pushTrimmed chunks cur) word = Some (chunks', w')"
      and l: "splitSentenceLoop maxLength ws chunks' w' = Some out"
      by (auto split: option.splits)
    from cutWord_count [OF c assms(2) pushed]
    have n: "\<forall>c\<in>set chunks'. c \<noteq> []"
      and e: "length (concat chunks') + length w'
        = length (concat (pushTrimmed chunks cur)) + length word"
      by simp_all
    from Cons.IH [OF l n] e len show ?thesis by simp
  next
    case start
    with Cons.prems(1)
    have "splitSentenceLoop maxLength ws (pushTrimmed chunks cur) word = Some out" by simp
    from Cons.IH [OF this pushed] len show ?thesis by simp
  qed
qed

lemma sum_splitChar: "sum_list (map (\<lambda>w. Suc (length w)) (splitChar d s)) = Suc (length s)"
  by (induction s) (auto split: list.splits)

lemma sum_splitSentences:
  "sum_list (map (\<lambda>w. Suc (length w)) (splitSentences p s)) \<le> Suc (length s)"
proof (induction p s rule: splitSentences.induct)
  case (1 p)
  show ?case by simp
next
  case (2 p c cs)
  show ?case
  proof (cases "p \<and> isWhiteSpace c")
    case True
    with 2(1) length_dropWhile_le [of isWhiteSpace cs] show ?thesis by simp
  next
    case False
    with 2(2) show ?thesis by (auto split: list.splits)
  qed
qed

lemma sum_splitBlankLine:
  "sum_list (map (\<lambda>w. Suc (length w)) (splitBlankLine s)) \<le> Suc (length s)"
  by (induction s rule: splitBlankLine.induct) (auto split: list.splits)

lemma member_sum:
  "x \<in> set xs \<Longrightarrow> Suc (length x) \<le> sum_list (map (\<lambda>w. Suc (length w)) xs)"
  by (induction xs) auto

lemma splitSentence_count:
  assumes "splitSentence sentence maxLength = Some out" and "2 \<le> maxLength"
  shows "(\<forall>c\<in>set out. c \<noteq> []) \<and> length (concat out) \<le> Suc (length sentence)"
  using splitSentenceLoop_count [of maxLength "splitChar SP sentence" "[]" "[]" out]
    assms floor06_pos [OF assms(2)]
  by (simp add: splitSentence_def sum_splitChar)

lemma splitParagraphLoop_count:
  assumes "splitParagraphLoop maxArguments maxLength ss chunks cur = Some out"
    and "2 \<le> maxLength"
    and "\<forall>c\<in>set chunks. c \<noteq> []"
  shows "(\<forall>c\<in>set out. c \<noteq> []) \<and>
    length (concat out)
      \<le> length (concat chunks) + length cur + sum_list (map (\<lambda>w. Suc (length w)) ss)"
  using assms(1,3)
proof (induction ss arbitrary: chunks cur)
  case Nil
  then show ?case using pushTrimmed_nonempty [of chunks cur] pushTrimmed_length [of chunks cur]
    by simp
next
  case (Cons sentence ss)
  let ?joined = "joinWith [SP] cur sentence"
  note pushed = pushTrimmed_nonempty [OF Cons.prems(2), of cur]
  note len = pushTrimmed_length [of chunks cur]
  consider (join) "le_double (length ?joined) (mul_double maxLength sig07)"
    | (divide) "\<not> le_double (length ?joined) (mul_double maxLength sig07)"
        "gt_double (length sentence) (mul_double maxLength sig05)"
    | (start) "\<not> le_double (length ?joined) (mul_double maxLength sig07)"
        "\<not> gt_double (length sentence) (mul_double maxLength sig05)"
    by blast
  then show ?case
  proof cases
    case join
    with Cons.prems(1)
    have "splitParagraphLoop maxArguments maxLength ss chunks ?joined = Some out" by simp
    from Cons.IH [OF this Cons.prems(2)] length_joinWith [of "[SP]" cur sentence]
    show ?thesis by simp
  next
    case divide
    with Cons.prems(1) obtain parts where
      p: "splitSentence sentence maxLength = Some parts"
      and l: "splitParagraphLoop maxArguments maxLength ss (pushTrimmed chunks cur @ parts) []
        = Some out"
      by (auto split: option.splits)
    from splitSentence_count [OF p assms(2)] pushed
    have n: "\<forall>c\<in>set (pushTrimmed chunks cur @ parts). c \<noteq> []"
      and e: "length (concat parts) \<le> Suc (length sentence)" by auto
    from Cons.IH [OF l n] e len show ?thesis by simp
  next
    case start
    with Cons.prems(1)
    have "splitParagraphLoop maxArguments maxLength ss (pushTrimmed chunks cur) sentence
      = Some out" by simp
    from Cons.IH [OF this pushed] len show ?thesis by simp
  qed
qed

lemma splitParagraph_count:
  assumes "splitParagraph maxArguments paragraph maxLength = Some out" and "2 \<le> maxLength"
  shows "(\<forall>c\<in>set out. c \<noteq> []) \<and> length (concat out) \<le> Suc (length paragraph)"
proof -
  from assms(1)
  have "splitParagraphLoop maxArguments maxLength (splitSentences False paragraph) [] []
    = Some out" by (simp add: splitParagraph_def)
  from splitParagraphLoop_count [OF this assms(2)] sum_splitSentences [of False "paragraph"]
  show ?thesis by simp
qed

section \<open>The tiers return when the slice length is positive\<close>

lemma splitSentenceLoop_returns:
  assumes "2 \<le> maxLength"
  shows "\<exists>out. splitSentenceLoop maxLength ws chunks cur = Some out"
proof (induction ws arbitrary: chunks cur)
  case Nil
  show ?case by simp
next
  case (Cons word ws)
  from cutWord_returns [OF floor06_pos [OF assms]] obtain chunks' w' where
    "cutWord maxLength (pushTrimmed chunks cur) word = Some (chunks', w')"
    by (metis surj_pair)
  then show ?case using Cons.IH by simp
qed

lemma splitSentence_returns:
  "2 \<le> maxLength \<Longrightarrow> \<exists>out. splitSentence sentence maxLength = Some out"
  by (simp add: splitSentence_def splitSentenceLoop_returns)

lemma splitSentence_spread:
  assumes "2 \<le> maxLength" and "length sentence < maxArguments"
  shows "\<exists>parts. Option.bind (splitSentence sentence maxLength) (spreadArguments maxArguments)
    = Some parts"
proof -
  from splitSentence_returns [OF assms(1)] obtain parts where
    p: "splitSentence sentence maxLength = Some parts" by blast
  from splitSentence_count [OF p assms(1)] length_le_concat [of parts]
  have "length parts \<le> Suc (length sentence)" by simp
  with p assms(2) show ?thesis by (simp add: spreadArguments_def)
qed

lemma splitParagraphLoop_returns:
  assumes "2 \<le> maxLength" and "\<forall>s\<in>set ss. length s < maxArguments"
  shows "\<exists>out. splitParagraphLoop maxArguments maxLength ss chunks cur = Some out"
  using assms(2)
proof (induction ss arbitrary: chunks cur)
  case Nil
  show ?case by simp
next
  case (Cons sentence ss)
  then have "length sentence < maxArguments" by simp
  from splitSentence_spread [OF assms(1) this] obtain parts where
    "Option.bind (splitSentence sentence maxLength) (spreadArguments maxArguments) = Some parts"
    by blast
  then show ?case using Cons by (simp del: bind_spreadArguments)
qed

lemma splitParagraph_returns:
  assumes "2 \<le> maxLength" and "length p < maxArguments"
  shows "\<exists>out. splitParagraph maxArguments p maxLength = Some out"
proof -
  have "\<forall>s\<in>set (splitSentences False p). length s < maxArguments"
  proof
    fix s assume "s \<in> set (splitSentences False p)"
    from member_sum [OF this] sum_splitSentences [of False p] assms(2)
    show "length s < maxArguments" by simp
  qed
  from splitParagraphLoop_returns [OF assms(1) this] show ?thesis
    by (simp add: splitParagraph_def)
qed

lemma splitParagraph_spread:
  assumes "2 \<le> maxLength" and "length p < maxArguments"
  shows "\<exists>parts. Option.bind (splitParagraph maxArguments p maxLength)
    (spreadArguments maxArguments) = Some parts"
proof -
  from splitParagraph_returns [OF assms] obtain parts where
    p: "splitParagraph maxArguments p maxLength = Some parts" by blast
  from splitParagraph_count [OF p assms(1)] length_le_concat [of parts]
  have "length parts \<le> Suc (length p)" by simp
  with p assms(2) show ?thesis by (simp add: spreadArguments_def)
qed

lemma paragraphLoop_returns:
  assumes "2 \<le> maxLength" and "\<forall>p\<in>set ps. length p < maxArguments"
  shows "\<exists>out. paragraphLoop maxArguments maxLength ps chunks cur = Some out"
  using assms(2)
proof (induction ps arbitrary: chunks cur)
  case Nil
  show ?case by simp
next
  case (Cons p ps)
  then have "length p < maxArguments" by simp
  from splitParagraph_spread [OF assms(1) this] obtain parts where
    "Option.bind (splitParagraph maxArguments p maxLength) (spreadArguments maxArguments)
      = Some parts"
    by blast
  then show ?case using Cons by (simp del: bind_spreadArguments)
qed

lemma paragraphs_returns:
  assumes "2 \<le> maxLength" and "length t < maxArguments"
  shows "\<exists>out. paragraphLoop maxArguments maxLength (splitBlankLine t) [] [] = Some out"
proof -
  have "\<forall>p\<in>set (splitBlankLine t). length p < maxArguments"
  proof
    fix p assume "p \<in> set (splitBlankLine t)"
    from member_sum [OF this] sum_splitBlankLine [of t] assms(2)
    show "length p < maxArguments" by simp
  qed
  from paragraphLoop_returns [OF assms(1) this] show ?thesis .
qed

lemma splitLongMessage_long:
  assumes "maxLength < length text" and "protectSpans text = (t, codeBlocks, inlineCodeBlocks)"
  shows "splitLongMessage maxArguments text maxLength =
    (case paragraphLoop maxArguments maxLength (splitBlankLine t) [] [] of
       None \<Rightarrow> None
     | Some chunks \<Rightarrow>
         Some (if chunks = [] then [text]
               else map (restoreChunk inlineCodeBlocks codeBlocks) chunks))"
proof (cases "paragraphLoop maxArguments maxLength (splitBlankLine t) [] []")
  case None
  with assms show ?thesis by (simp add: splitLongMessage_def)
next
  case (Some chunks)
  from paragraphLoop_bound [OF Some] have b: "\<forall>c\<in>set chunks. length c \<le> maxLength" by simp
  then have v: "validateChunks maxArguments maxLength chunks = Some chunks" by (rule validateChunks_within)
  have "\<not> (length chunks = 1 \<and> maxLength < length (hd chunks))"
    using b by (cases chunks) auto
  with assms Some v show ?thesis by (auto simp: splitLongMessage_def)
qed

section \<open>The tiers drop and add white space only\<close>

lemma nonWhiteSpace_simps [simp]:
  "nonWhiteSpace [] = []"
  "nonWhiteSpace (a @ b) = nonWhiteSpace a @ nonWhiteSpace b"
  "nonWhiteSpace (c # cs) = (if isWhiteSpace c then nonWhiteSpace cs else c # nonWhiteSpace cs)"
  by (simp_all add: nonWhiteSpace_def)

lemma isWhiteSpace_SP_LF [simp]: "isWhiteSpace SP" "isWhiteSpace LF"
  by (simp_all add: isWhiteSpace_def)

lemma nonWhiteSpace_dropWhile [simp]:
  "nonWhiteSpace (dropWhile isWhiteSpace s) = nonWhiteSpace s"
  by (induction s) simp_all

lemma nonWhiteSpace_rev: "nonWhiteSpace (rev s) = rev (nonWhiteSpace s)"
  by (simp add: nonWhiteSpace_def rev_filter)

lemma nonWhiteSpace_trim [simp]: "nonWhiteSpace (trim s) = nonWhiteSpace s"
proof -
  have "nonWhiteSpace (trim s) = rev (nonWhiteSpace (dropWhile isWhiteSpace (rev (dropWhile isWhiteSpace s))))"
    by (simp add: trim_def nonWhiteSpace_rev)
  also have "\<dots> = rev (nonWhiteSpace (rev (dropWhile isWhiteSpace s)))" by simp
  also have "\<dots> = nonWhiteSpace s" by (simp add: nonWhiteSpace_rev)
  finally show ?thesis .
qed

lemma nonWhiteSpace_pushTrimmed [simp]:
  "nonWhiteSpace (concat (pushTrimmed chunks cur)) = nonWhiteSpace (concat chunks) @ nonWhiteSpace cur"
proof (cases "trim cur = []")
  case True
  then have "nonWhiteSpace (trim cur) = []" by simp
  then have "nonWhiteSpace cur = []" by simp
  with True show ?thesis by (simp add: pushTrimmed_def)
next
  case False
  then show ?thesis by (simp add: pushTrimmed_def)
qed

lemma nonWhiteSpace_joinWith [simp]:
  "nonWhiteSpace sep = [] \<Longrightarrow> nonWhiteSpace (joinWith sep cur x) = nonWhiteSpace cur @ nonWhiteSpace x"
  by (simp add: joinWith_def)

lemma splitChar_nonempty [simp]: "splitChar d s \<noteq> []"
  by (induction s) (auto split: list.splits)

lemma nonWhiteSpace_splitChar:
  "isWhiteSpace d \<Longrightarrow> nonWhiteSpace (concat (splitChar d s)) = nonWhiteSpace s"
  by (induction s) (auto split: list.splits)

lemma splitBlankLine_nonempty [simp]: "splitBlankLine s \<noteq> []"
  by (induction s rule: splitBlankLine.induct) (auto split: list.splits)

lemma nonWhiteSpace_splitBlankLine:
  "nonWhiteSpace (concat (splitBlankLine s)) = nonWhiteSpace s"
  by (induction s rule: splitBlankLine.induct) (auto split: list.splits)

lemma splitSentences_nonempty [simp]: "splitSentences p s \<noteq> []"
  by (induction p s rule: splitSentences.induct) (auto split: list.splits)

lemma nonWhiteSpace_splitSentences:
  "nonWhiteSpace (concat (splitSentences p s)) = nonWhiteSpace s"
  by (induction p s rule: splitSentences.induct) (auto split: list.splits)

lemma cutWord_concat:
  assumes "cutWord maxLength chunks w = Some (chunks', w')"
  shows "concat chunks' @ w' = concat chunks @ w"
  using cutWord_result [OF assms] by auto

lemma splitSentenceLoop_nonWhiteSpace:
  assumes "splitSentenceLoop maxLength ws chunks cur = Some out"
  shows "nonWhiteSpace (concat out) =
    nonWhiteSpace (concat chunks) @ nonWhiteSpace cur @ nonWhiteSpace (concat ws)"
  using assms
proof (induction ws arbitrary: chunks cur)
  case Nil
  then show ?case by auto
next
  case (Cons word ws)
  let ?x = "mul_double maxLength sig06"
  let ?joined = "joinWith [SP] cur word"
  consider (join) "le_double (length ?joined) ?x"
    | (cut) "\<not> le_double (length ?joined) ?x" "gt_double (length word) ?x"
    | (start) "\<not> le_double (length ?joined) ?x" "\<not> gt_double (length word) ?x"
    by blast
  then show ?case
  proof cases
    case join
    with Cons.prems have "splitSentenceLoop maxLength ws chunks ?joined = Some out" by simp
    from Cons.IH [OF this] show ?thesis by simp
  next
    case cut
    with Cons.prems obtain chunks' w' where
      c: "cutWord maxLength (pushTrimmed chunks cur) word = Some (chunks', w')"
      and l: "splitSentenceLoop maxLength ws chunks' w' = Some out"
      by (auto split: option.splits)
    from cutWord_concat [OF c]
    have "nonWhiteSpace (concat chunks' @ w') = nonWhiteSpace (concat (pushTrimmed chunks cur) @ word)"
      by simp
    then have "nonWhiteSpace (concat chunks') @ nonWhiteSpace w' =
      nonWhiteSpace (concat chunks) @ nonWhiteSpace cur @ nonWhiteSpace word"
      by simp
    with Cons.IH [OF l] show ?thesis by simp
  next
    case start
    with Cons.prems
    have "splitSentenceLoop maxLength ws (pushTrimmed chunks cur) word = Some out" by simp
    from Cons.IH [OF this] show ?thesis by simp
  qed
qed

lemma splitSentence_nonWhiteSpace:
  assumes "splitSentence sentence maxLength = Some out"
  shows "nonWhiteSpace (concat out) = nonWhiteSpace sentence"
  using splitSentenceLoop_nonWhiteSpace [of maxLength "splitChar SP sentence" "[]" "[]" out] assms
  by (simp add: splitSentence_def nonWhiteSpace_splitChar)

lemma splitParagraphLoop_nonWhiteSpace:
  assumes "splitParagraphLoop maxArguments maxLength ss chunks cur = Some out"
  shows "nonWhiteSpace (concat out) =
    nonWhiteSpace (concat chunks) @ nonWhiteSpace cur @ nonWhiteSpace (concat ss)"
  using assms
proof (induction ss arbitrary: chunks cur)
  case Nil
  then show ?case by auto
next
  case (Cons sentence ss)
  let ?joined = "joinWith [SP] cur sentence"
  consider (join) "le_double (length ?joined) (mul_double maxLength sig07)"
    | (divide) "\<not> le_double (length ?joined) (mul_double maxLength sig07)"
        "gt_double (length sentence) (mul_double maxLength sig05)"
    | (start) "\<not> le_double (length ?joined) (mul_double maxLength sig07)"
        "\<not> gt_double (length sentence) (mul_double maxLength sig05)"
    by blast
  then show ?case
  proof cases
    case join
    with Cons.prems have "splitParagraphLoop maxArguments maxLength ss chunks ?joined = Some out" by simp
    from Cons.IH [OF this] show ?thesis by simp
  next
    case divide
    with Cons.prems obtain parts where
      p: "splitSentence sentence maxLength = Some parts"
      and l: "splitParagraphLoop maxArguments maxLength ss (pushTrimmed chunks cur @ parts) [] = Some out"
      by (auto split: option.splits)
    from Cons.IH [OF l] splitSentence_nonWhiteSpace [OF p] show ?thesis by simp
  next
    case start
    with Cons.prems
    have "splitParagraphLoop maxArguments maxLength ss (pushTrimmed chunks cur) sentence = Some out" by simp
    from Cons.IH [OF this] show ?thesis by simp
  qed
qed

lemma splitParagraph_nonWhiteSpace:
  assumes "splitParagraph maxArguments p maxLength = Some out"
  shows "nonWhiteSpace (concat out) = nonWhiteSpace p"
  using splitParagraphLoop_nonWhiteSpace [of maxArguments maxLength "splitSentences False p" "[]" "[]" out] assms
  by (simp add: splitParagraph_def nonWhiteSpace_splitSentences)

lemma paragraphLoop_nonWhiteSpace:
  assumes "paragraphLoop maxArguments maxLength ps chunks cur = Some out"
  shows "nonWhiteSpace (concat out) =
    nonWhiteSpace (concat chunks) @ nonWhiteSpace cur @ nonWhiteSpace (concat ps)"
  using assms
proof (induction ps arbitrary: chunks cur)
  case Nil
  then show ?case by auto
next
  case (Cons p ps)
  let ?joined = "joinWith [LF, LF] cur p"
  consider (join) "le_double (length ?joined) (mul_double maxLength sig08)"
    | (divide) "\<not> le_double (length ?joined) (mul_double maxLength sig08)"
        "gt_double (length p) (mul_double maxLength sig06)"
    | (start) "\<not> le_double (length ?joined) (mul_double maxLength sig08)"
        "\<not> gt_double (length p) (mul_double maxLength sig06)"
    by blast
  then show ?case
  proof cases
    case join
    with Cons.prems have "paragraphLoop maxArguments maxLength ps chunks ?joined = Some out" by simp
    from Cons.IH [OF this] show ?thesis by simp
  next
    case divide
    with Cons.prems obtain parts where
      p: "splitParagraph maxArguments p maxLength = Some parts"
      and l: "paragraphLoop maxArguments maxLength ps (pushTrimmed chunks cur @ parts) [] = Some out"
      by (auto split: option.splits)
    from Cons.IH [OF l] splitParagraph_nonWhiteSpace [OF p] show ?thesis by simp
  next
    case start
    with Cons.prems
    have "paragraphLoop maxArguments maxLength ps (pushTrimmed chunks cur) p = Some out" by simp
    from Cons.IH [OF this] show ?thesis by simp
  qed
qed

lemma findFence_backtick: "findFence s = Some r \<Longrightarrow> BACKTICK \<in> set s"
  by (induction s arbitrary: r rule: findFence.induct) (auto split: if_splits)

lemma extractCodeBlocks_plain:
  assumes "BACKTICK \<notin> set s"
  shows "extractCodeBlocks s n = (s, [])"
proof -
  have "findFence s = None" using findFence_backtick [of s] assms by (cases "findFence s") auto
  then show ?thesis by (subst extractCodeBlocks.simps) simp
qed

lemma extractInlineCode_plain: "BACKTICK \<notin> set s \<Longrightarrow> extractInlineCode s n = (s, [])"
proof (induction s)
  case Nil
  show ?case by simp
next
  case (Cons c cs)
  then have "c \<noteq> BACKTICK" "extractInlineCode cs n = (cs, [])" by simp_all
  then show ?case by simp
qed

lemma protectSpans_plain: "BACKTICK \<notin> set s \<Longrightarrow> protectSpans s = (s, [], [])"
  by (simp add: protectSpans_def extractCodeBlocks_plain extractInlineCode_plain)

lemma restoreChunk_none [simp]: "restoreChunk [] [] chunk = chunk"
  by (simp add: restoreChunk_def)

lemma map_restoreChunk_none [simp]: "map (restoreChunk [] []) chunks = chunks"
  by (induction chunks) simp_all

lemma splitLongMessage_plain:
  assumes "BACKTICK \<notin> set text" "maxLength < length text"
  shows "splitLongMessage maxArguments text maxLength =
    (case paragraphLoop maxArguments maxLength (splitBlankLine text) [] [] of
       None \<Rightarrow> None
     | Some chunks \<Rightarrow> Some (if chunks = [] then [text] else chunks))"
  using splitLongMessage_long [OF assms(2) protectSpans_plain [OF assms(1)]]
  by (simp split: option.splits)

section \<open>Texts of spaces and line feeds\<close>

lemma trim_blank:
  assumes "\<forall>c\<in>set s. isWhiteSpace c"
  shows "trim s = []"
proof -
  have a: "dropWhile isWhiteSpace s = []" using assms by simp
  show ?thesis unfolding trim_def a by simp
qed

lemma pushTrimmed_blank: "\<forall>c\<in>set cur. isWhiteSpace c \<Longrightarrow> pushTrimmed chunks cur = chunks"
  by (simp add: pushTrimmed_def trim_blank)

lemma splitBlankLine_first:
  "splitBlankLine (d # cs) = w # ws \<Longrightarrow> w = [] \<or> hd w = d"
  by (cases cs) (auto split: if_splits list.splits)

lemma splitBlankLine_pieces:
  "p \<in> set (splitBlankLine s) \<Longrightarrow> set p \<subseteq> set s \<and> \<not> adjacentLF p"
proof (induction s arbitrary: p rule: splitBlankLine.induct)
  case (1 c d cs)
  show ?case
  proof (cases "c = LF \<and> d = LF")
    case True
    with 1 show ?thesis by auto
  next
    case False
    obtain w ws where split: "splitBlankLine (d # cs) = w # ws"
      using splitBlankLine_nonempty [of "d # cs"] by (cases "splitBlankLine (d # cs)") auto
    with False "1.prems" have p: "p = c # w \<or> p \<in> set ws" by auto
    from "1.IH"(2) [OF False] split
    have ih: "\<And>q. q \<in> set (w # ws) \<Longrightarrow> set q \<subseteq> set (d # cs) \<and> \<not> adjacentLF q" by simp
    show ?thesis
    proof (cases "p = c # w")
      case True
      from ih [of w] have w: "set w \<subseteq> set (d # cs)" "\<not> adjacentLF w" by simp_all
      from splitBlankLine_first [OF split] have "\<not> adjacentLF (c # w)"
        using w(2) False by (cases w) auto
      with w(1) True show ?thesis by auto
    next
      case False
      with p have "p \<in> set ws" by simp
      with ih [of p] show ?thesis by auto
    qed
  qed
qed auto

lemma splitChar_first_SP: "splitChar d (d # cs) = [] # splitChar d cs"
  by simp

lemma splitChar_short_words:
  assumes "set p \<subseteq> {SP, LF}" "\<not> adjacentLF p"
  shows "\<forall>w\<in>set (splitChar SP p). length w \<le> 1 \<and> set w \<subseteq> {SP, LF}"
  using assms
proof (induction p)
  case Nil
  show ?case by simp
next
  case (Cons c cs)
  have cs: "set cs \<subseteq> {SP, LF}" "\<not> adjacentLF cs"
    using Cons.prems by (auto elim: contrapos_nn) (cases cs; auto)+
  note ih = Cons.IH [OF cs]
  show ?case
  proof (cases "c = SP")
    case True
    with ih show ?thesis by simp
  next
    case False
    with Cons.prems have c: "c = LF" by auto
    have "cs = [] \<or> hd cs = SP" using Cons.prems c by (cases cs) auto
    then obtain ws where "splitChar SP cs = [] # ws" by (cases cs) auto
    with ih c show ?thesis by auto
  qed
qed

lemma blank_isWhiteSpace: "set s \<subseteq> {SP, LF} \<Longrightarrow> \<forall>c\<in>set s. isWhiteSpace c"
  by (auto simp: isWhiteSpace_def)

lemma blank_joinWith:
  "set sep \<subseteq> {SP, LF} \<Longrightarrow> set cur \<subseteq> {SP, LF} \<Longrightarrow> set x \<subseteq> {SP, LF} \<Longrightarrow>
   set (joinWith sep cur x) \<subseteq> {SP, LF}"
  by (auto simp: joinWith_def)

lemma splitSentences_whole:
  "\<forall>c\<in>set s. \<not> isSentenceEnd c \<Longrightarrow> splitSentences False s = [s]"
  by (induction s) simp_all

lemma splitSentenceLoop_blank:
  assumes "2 \<le> maxLength"
    and "\<forall>w\<in>set ws. length w \<le> 1 \<and> set w \<subseteq> {SP, LF}" and "set cur \<subseteq> {SP, LF}"
  shows "splitSentenceLoop maxLength ws [] cur = Some []"
  using assms(2,3)
proof (induction ws arbitrary: cur)
  case Nil
  then show ?case by (simp add: pushTrimmed_blank blank_isWhiteSpace)
next
  case (Cons word ws)
  have word: "length word \<le> 1" "set word \<subseteq> {SP, LF}" using Cons.prems(1) by simp_all
  have "1 \<le> floor_double (mul_double maxLength sig06)" using assms(1) by (rule floor06_pos)
  with word(1) have short: "\<not> gt_double (length word) (mul_double maxLength sig06)"
    by (simp add: gt_double_def le_double_def)
  have joined: "set (joinWith [SP] cur word) \<subseteq> {SP, LF}"
    using Cons.prems(2) word(2) by (intro blank_joinWith) simp_all
  have pushed: "pushTrimmed [] cur = []"
    using Cons.prems(2) by (simp add: pushTrimmed_blank blank_isWhiteSpace)
  from Cons.prems(1) have rest: "\<forall>w\<in>set ws. length w \<le> 1 \<and> set w \<subseteq> {SP, LF}" by simp
  show ?case
    using short pushed Cons.IH [OF rest joined] Cons.IH [OF rest word(2)] by simp
qed

lemma splitSentence_blank:
  assumes "2 \<le> maxLength" "set p \<subseteq> {SP, LF}" "\<not> adjacentLF p"
  shows "splitSentence p maxLength = Some []"
  unfolding splitSentence_def
  using assms(1) splitChar_short_words [OF assms(2,3)] by (rule splitSentenceLoop_blank) simp

lemma splitParagraph_blank:
  assumes "2 \<le> maxLength" "set p \<subseteq> {SP, LF}" "\<not> adjacentLF p"
  shows "splitParagraph maxArguments p maxLength = Some []"
proof -
  have "\<forall>c\<in>set p. \<not> isSentenceEnd c" using assms(2) by (auto simp: isSentenceEnd_def)
  then have whole: "splitSentences False p = [p]" by (rule splitSentences_whole)
  have pushed: "pushTrimmed [] p = []" "pushTrimmed [] [] = []"
    using assms(2) by (simp_all add: pushTrimmed_blank blank_isWhiteSpace)
  show ?thesis
    using splitSentence_blank [OF assms] pushed
    by (simp add: splitParagraph_def whole joinWith_def spreadArguments_def)
qed

lemma paragraphLoop_blank:
  assumes "2 \<le> maxLength"
    and "\<forall>p\<in>set ps. set p \<subseteq> {SP, LF} \<and> \<not> adjacentLF p" and "set cur \<subseteq> {SP, LF}"
  shows "paragraphLoop maxArguments maxLength ps [] cur = Some []"
  using assms(2,3)
proof (induction ps arbitrary: cur)
  case Nil
  then show ?case by (simp add: pushTrimmed_blank blank_isWhiteSpace)
next
  case (Cons p ps)
  have p: "set p \<subseteq> {SP, LF}" "\<not> adjacentLF p" using Cons.prems(1) by simp_all
  have joined: "set (joinWith [LF, LF] cur p) \<subseteq> {SP, LF}"
    using Cons.prems(2) p(1) by (intro blank_joinWith) simp_all
  have pushed: "pushTrimmed [] cur = []"
    using Cons.prems(2) by (simp add: pushTrimmed_blank blank_isWhiteSpace)
  from Cons.prems(1) have rest: "\<forall>p\<in>set ps. set p \<subseteq> {SP, LF} \<and> \<not> adjacentLF p" by simp
  have empty: "set ([]::jsstring) \<subseteq> {SP, LF}" by simp
  show ?case
    using pushed splitParagraph_blank [OF assms(1) p]
      Cons.IH [OF rest joined] Cons.IH [OF rest p(1)] Cons.IH [OF rest empty]
    by (simp add: spreadArguments_def)
qed

lemma splitLongMessage_blank:
  assumes "2 \<le> maxLength" "maxLength < length text" "set text \<subseteq> {SP, LF}"
  shows "splitLongMessage maxArguments text maxLength = Some [text]"
proof -
  have plain: "BACKTICK \<notin> set text" using assms(3) by auto
  have "\<forall>p\<in>set (splitBlankLine text). set p \<subseteq> {SP, LF} \<and> \<not> adjacentLF p"
    using splitBlankLine_pieces [of _ "text"] assms(3) by blast
  with assms(1) have "paragraphLoop maxArguments maxLength (splitBlankLine text) [] [] = Some []"
    by (rule paragraphLoop_blank) simp
  with plain assms(2) show ?thesis by (simp add: splitLongMessage_plain)
qed

lemma splitLongMessage_returns:
  assumes "2 \<le> maxLength" and "length (fst (protectSpans text)) < maxArguments"
  shows "\<exists>out. splitLongMessage maxArguments text maxLength = Some out \<and> out \<noteq> []"
proof (cases "length text \<le> maxLength")
  case True
  then show ?thesis by (simp add: splitLongMessage_def)
next
  case False
  obtain t cbs ics where spans: "protectSpans text = (t, cbs, ics)" by (cases "protectSpans text")
  with assms(2) have "length t < maxArguments" by simp
  from paragraphs_returns [OF assms(1) this] obtain chunks where
    "paragraphLoop maxArguments maxLength (splitBlankLine t) [] [] = Some chunks" by blast
  with False spans show ?thesis by (simp add: splitLongMessage_long)
qed

section \<open>A slice length of zero\<close>

lemma cutWord_stuck_aux:
  "cutWord maxLength chunks w = Some y \<Longrightarrow>
   floor_double (mul_double maxLength sig06) = 0 \<longrightarrow> w = []"
proof (induction maxLength chunks w y rule: cutWord.raw_induct [rotated 1, consumes 1])
  case (1 cutWord' maxLength chunks w y)
  show ?case
  proof (cases "gt_double (length w) (mul_double maxLength sig06)")
    case True
    with 1(2) have "cutWord' maxLength
        (chunks @ [take (floor_double (mul_double maxLength sig06)) w])
        (drop (floor_double (mul_double maxLength sig06)) w) = Some y" by simp
    from 1(1) [OF this] show ?thesis by auto
  next
    case False
    then show ?thesis by (auto simp: gt_double_def le_double_def)
  qed
qed

lemma cutWord_stuck:
  assumes "floor_double (mul_double maxLength sig06) = 0" "w \<noteq> []"
  shows "cutWord maxLength chunks w = None"
proof (cases "cutWord maxLength chunks w")
  case None
  then show ?thesis .
next
  case (Some y)
  from cutWord_stuck_aux [OF Some] assms show ?thesis by simp
qed

lemma floor06_one: "floor_double (mul_double (Suc 0) sig06) = 0"
  by (simp add: eval_defs)

section \<open>Chunks as pieces of the text\<close>

lemma weave_set:
  "length gaps = Suc (length chunks) \<Longrightarrow> c \<in> set chunks \<Longrightarrow> set c \<subseteq> set (weave gaps chunks)"
proof (induction chunks arbitrary: gaps)
  case Nil
  then show ?case by simp
next
  case (Cons d chunks)
  then obtain g gs where "gaps = g # gs" by (cases gaps) auto
  with Cons show ?case by auto
qed

section \<open>One unbroken line and a budget of 2000\<close>

lemma thresholds_2000:
  "floor_double (mul_double 2000 sig08) = 1600"
  "floor_double (mul_double 2000 sig07) = 1400"
  "floor_double (mul_double 2000 sig06) = 1200"
  "floor_double (mul_double 2000 sig05) = 1000"
  by (simp_all add: eval_defs)

lemma splitBlankLine_whole: "LF \<notin> set s \<Longrightarrow> splitBlankLine s = [s]"
  by (induction s rule: splitBlankLine.induct) auto

lemma splitChar_whole: "d \<notin> set s \<Longrightarrow> splitChar d s = [s]"
  by (induction s) auto

lemma cutWord_line:
  assumes "length w = 10000"
  shows "cutWord 2000 [] w =
    Some ([take 1200 w, take 1200 (drop 1200 w), take 1200 (drop 2400 w),
           take 1200 (drop 3600 w), take 1200 (drop 4800 w), take 1200 (drop 6000 w),
           take 1200 (drop 7200 w), take 1200 (drop 8400 w)], drop 9600 w)"
  using assms
  by (simp add: cutWord_step cutWord_done gt_double_def le_double_def thresholds_2000)

lemma unbroken_line:
  assumes "length line = 10000" and "BACKTICK \<notin> set line" and "SP \<notin> set line"
    and "LF \<notin> set line" and "\<forall>c\<in>set line. \<not> isSentenceEnd c"
    and "9 \<le> maxArguments"
  shows "splitLongMessage maxArguments line 2000 =
    Some (pushTrimmed
      [take 1200 line, take 1200 (drop 1200 line), take 1200 (drop 2400 line),
       take 1200 (drop 3600 line), take 1200 (drop 4800 line), take 1200 (drop 6000 line),
       take 1200 (drop 7200 line), take 1200 (drop 8400 line)] (drop 9600 line))"
proof -
  let ?slices = "[take 1200 line, take 1200 (drop 1200 line), take 1200 (drop 2400 line),
       take 1200 (drop 3600 line), take 1200 (drop 4800 line), take 1200 (drop 6000 line),
       take 1200 (drop 7200 line), take 1200 (drop 8400 line)]"
  let ?out = "pushTrimmed ?slices (drop 9600 line)"
  have push: "\<And>chunks. pushTrimmed chunks [] = chunks" by (simp add: pushTrimmed_def trim_def)
  have word: "splitSentence line 2000 = Some ?out"
    using assms(1,3) cutWord_line [OF assms(1)]
    by (simp add: splitSentence_def splitChar_whole joinWith_def gt_double_def le_double_def
        thresholds_2000 push)
  have fits: "length ?out \<le> maxArguments" using assms(6) by (simp add: pushTrimmed_def)
  have sentence: "splitParagraph maxArguments line 2000 = Some ?out"
    using assms(1,5) word fits
    by (simp add: splitParagraph_def splitSentences_whole joinWith_def gt_double_def
        le_double_def thresholds_2000 push spreadArguments_def)
  have loop: "paragraphLoop maxArguments 2000 (splitBlankLine line) [] [] = Some ?out"
    using assms(1,4) sentence fits
    by (simp add: splitBlankLine_whole joinWith_def gt_double_def le_double_def
        thresholds_2000 push spreadArguments_def)
  have "?out \<noteq> []" by (simp add: pushTrimmed_def)
  with loop assms(1,2) show ?thesis by (simp add: splitLongMessage_plain)
qed

lemma dropWhile_none: "\<forall>c\<in>set s. \<not> P c \<Longrightarrow> dropWhile P s = s"
  by (cases s) simp_all

lemma trim_unchanged:
  assumes "\<forall>c\<in>set s. \<not> isWhiteSpace c"
  shows "trim s = s"
proof -
  have "dropWhile isWhiteSpace s = s" using assms by (rule dropWhile_none)
  moreover have "dropWhile isWhiteSpace (rev s) = rev s" using assms by (intro dropWhile_none) simp
  ultimately show ?thesis by (simp add: trim_def)
qed

section \<open>The tokens\<close>

lemma decimal_nonempty: "decimal n \<noteq> []"
  by (subst decimal.simps) simp

lemma decimal_inj: "decimal m = decimal n \<Longrightarrow> m = n"
proof (induction m arbitrary: n rule: decimal.induct)
  case (1 m)
  show ?case
  proof (cases "m < 10")
    case small: True
    show ?thesis
    proof (cases "n < 10")
      case True
      with small "1.prems" show ?thesis
        by (simp add: decimal.simps [of m] decimal.simps [of n])
    next
      case False
      with small "1.prems" decimal_nonempty [of "n div 10"] show ?thesis
        by (simp add: decimal.simps [of m] decimal.simps [of n] Cons_eq_append_conv)
    qed
  next
    case large: False
    show ?thesis
    proof (cases "n < 10")
      case True
      with large "1.prems" decimal_nonempty [of "m div 10"] show ?thesis
        by (simp add: decimal.simps [of m] decimal.simps [of n] append_eq_Cons_conv)
    next
      case False
      with large "1.prems" have "decimal (m div 10) = decimal (n div 10)" "m mod 10 = n mod 10"
        by (simp_all add: decimal.simps [of m] decimal.simps [of n])
      with "1.IH" [OF large] have "m div 10 = n div 10" "m mod 10 = n mod 10" by simp_all
      then show ?thesis by (metis div_mult_mod_eq)
    qed
  qed
qed

lemma getSubstitution_plain:
  "DOLLAR \<notin> set code \<Longrightarrow> getSubstitution matched preceding following code = code"
  by (induction matched preceding following code rule: getSubstitution.induct) auto

lemma codeBlockToken_Cons: "codeBlockToken i = 95 # tl (codeBlockToken i)"
  by (simp add: codeBlockToken_def ascii_def)

lemma replaceAll_whole:
  assumes "token \<noteq> []"
  shows "replaceAll token code [] token = getSubstitution token [] [] code"
proof -
  from assms obtain c cs where "token = c # cs" by (cases token) auto
  then show ?thesis by simp
qed

section \<open>A token inside a long word\<close>

lemma findFence_behind:
  "BACKTICK \<notin> set u \<Longrightarrow> findFence (u @ BACKTICK # BACKTICK # BACKTICK # v) = Some (u, v)"
proof (induction u)
  case Nil
  show ?case by simp
next
  case (Cons a u)
  obtain b c rest where shape: "u @ BACKTICK # BACKTICK # BACKTICK # v = b # c # rest"
    by (cases u; cases "tl u") auto
  from Cons have "a \<noteq> BACKTICK" "findFence (b # c # rest) = Some (u, v)"
    by (simp_all add: shape [symmetric])
  then show ?case by (simp add: shape)
qed

lemma count_list_replicate: "count_list (replicate n x) c = (if x = c then n else 0)"
  by (induction n) auto

lemma count_list_take_le: "take k s = token \<Longrightarrow> count_list token c \<le> count_list s c"
proof -
  assume "take k s = token"
  then have "s = token @ drop k s" by (metis append_take_drop_id)
  then have "count_list s c = count_list token c + count_list (drop k s) c"
    by (metis count_list_append)
  then show ?thesis by simp
qed

lemma replaceAll_absent:
  "count_list s c < count_list token c \<Longrightarrow> replaceAll token r pre s = s"
proof (induction s arbitrary: pre)
  case Nil
  show ?case by simp
next
  case (Cons x xs)
  have "take (length token) (x # xs) \<noteq> token"
    using count_list_take_le [of "length token" "x # xs" token c] Cons.prems by auto
  moreover have "count_list xs c < count_list token c" using Cons.prems by (simp split: if_splits)
  ultimately show ?case using Cons.IH by simp
qed

lemma one_cut:
  assumes "1600 < length t" and "length t \<le> 2400"
    and "\<forall>c\<in>set t. \<not> isWhiteSpace c" and "\<forall>c\<in>set t. \<not> isSentenceEnd c"
    and "2 \<le> maxArguments"
  shows "paragraphLoop maxArguments 2000 (splitBlankLine t) [] [] = Some [take 1200 t, drop 1200 t]"
proof -
  have sp: "SP \<notin> set t" "LF \<notin> set t" using assms(3) by (auto simp: isWhiteSpace_def)
  have push: "\<And>chunks. pushTrimmed chunks [] = chunks" by (simp add: pushTrimmed_def trim_def)
  have "\<forall>c\<in>set (drop 1200 t). \<not> isWhiteSpace c"
    using assms(3) set_drop_subset [of 1200 t] by blast
  then have "trim (drop 1200 t) = drop 1200 t" by (rule trim_unchanged)
  moreover have "drop 1200 t \<noteq> []" using assms(1) by auto
  ultimately have rest: "pushTrimmed [take 1200 t] (drop 1200 t) = [take 1200 t, drop 1200 t]"
    by (simp add: pushTrimmed_def)
  have cut: "cutWord 2000 [] t = Some ([take 1200 t], drop 1200 t)"
    using assms(1,2)
    by (simp add: cutWord_step cutWord_done gt_double_def le_double_def thresholds_2000)
  have word: "splitSentence t 2000 = Some [take 1200 t, drop 1200 t]"
    using assms(1) sp(1) cut rest
    by (simp add: splitSentence_def splitChar_whole joinWith_def gt_double_def le_double_def
        thresholds_2000 push)
  have sentence: "splitParagraph maxArguments t 2000 = Some [take 1200 t, drop 1200 t]"
    using assms(1,4,5) word
    by (simp add: splitParagraph_def splitSentences_whole joinWith_def gt_double_def
        le_double_def thresholds_2000 push spreadArguments_def)
  show ?thesis
    using assms(1,5) sp(2) sentence
    by (simp add: splitBlankLine_whole joinWith_def gt_double_def le_double_def
        thresholds_2000 push spreadArguments_def)
qed

section \<open>The chunks are the text, cut at white space\<close>

lemma joinStrings_Cons: "joinStrings sep (x # xs) = x @ prefixed sep xs"
  by (induction xs arbitrary: x) simp_all

lemma joinStrings_splitChar: "joinStrings [d] (splitChar d s) = s"
  by (induction s) (auto simp: joinStrings_Cons split: list.splits)

lemma joinStrings_splitBlankLine: "joinStrings [LF, LF] (splitBlankLine s) = s"
proof (induction s rule: splitBlankLine.induct)
  case (1 c d cs)
  obtain w ws where a: "splitBlankLine cs = w # ws"
    by (cases "splitBlankLine cs") simp_all
  obtain v vs where b: "splitBlankLine (d # cs) = v # vs"
    by (cases "splitBlankLine (d # cs)") simp_all
  show ?case
  proof (cases "c = LF \<and> d = LF")
    case True
    with 1(1) a show ?thesis by (simp add: joinStrings_Cons)
  next
    case False
    then have "splitBlankLine (c # d # cs) = (c # v) # vs" using b by auto
    moreover from 1(2) [OF False] b have "v @ prefixed [LF, LF] vs = d # cs"
      by (simp add: joinStrings_Cons)
    ultimately show ?thesis by (simp add: joinStrings_Cons)
  qed
qed simp_all

lemma weave_append:
  assumes "length ga = Suc (length a)" and "length gb = Suc (length b)"
  shows "weave (butlast ga @ [last ga @ hd gb] @ tl gb) (a @ b) = weave ga a @ weave gb b"
  using assms(1)
proof (induction a arbitrary: ga)
  case Nil
  then obtain g where ga: "ga = [g]" by (cases ga) auto
  from assms(2) obtain h gb' where gb: "gb = h # gb'" by (cases gb) auto
  show ?case using ga gb assms(2) by (cases b) auto
next
  case (Cons c a)
  then obtain g ga' where ga: "ga = g # ga'" and l: "length ga' = Suc (length a)"
    by (cases ga) auto
  from l have "ga' \<noteq> []" by auto
  with Cons.IH [OF l] ga show ?case by simp
qed

lemma reassembles_white: "list_all isWhiteSpace w \<Longrightarrow> reassembles w []"
  unfolding reassembles_def by (rule exI [of _ "[w]"]) simp

lemma reassembles_one: "reassembles c [c]"
  unfolding reassembles_def by (rule exI [of _ "[[], []]"]) simp

lemma reassembles_append:
  assumes "reassembles s a" and "reassembles u b"
  shows "reassembles (s @ u) (a @ b)"
proof -
  from assms obtain ga gb where
    ga: "length ga = Suc (length a)" "list_all (list_all isWhiteSpace) ga" "weave ga a = s"
    and gb: "length gb = Suc (length b)" "list_all (list_all isWhiteSpace) gb" "weave gb b = u"
    unfolding reassembles_def by blast
  let ?g = "butlast ga @ [last ga @ hd gb] @ tl gb"
  from ga(1) gb(1) have ne: "ga \<noteq> []" "gb \<noteq> []" by auto
  have "length ?g = Suc (length (a @ b))" using ga(1) gb(1) by simp
  moreover have "list_all (list_all isWhiteSpace) (butlast ga)"
    using ga(2) by (auto simp: list_all_iff dest: in_set_butlastD)
  moreover have "list_all isWhiteSpace (last ga)" "list_all isWhiteSpace (hd gb)"
    using ga(2) gb(2) ne by (auto simp: list_all_iff)
  moreover have "list_all (list_all isWhiteSpace) (tl gb)"
    using gb(2) by (auto simp: list_all_iff dest: list.set_sel(2) [OF ne(2)])
  ultimately have "length ?g = Suc (length (a @ b)) \<and> list_all (list_all isWhiteSpace) ?g \<and>
    weave ?g (a @ b) = s @ u"
    using weave_append [OF ga(1) gb(1)] ga(3) gb(3) by simp
  then show ?thesis unfolding reassembles_def by blast
qed

lemma reassembles_gap:
  assumes "reassembles s chunks" and "list_all isWhiteSpace w"
  shows "reassembles (s @ w) chunks"
  using reassembles_append [OF assms(1) reassembles_white [OF assms(2)]] by simp

lemma reassembles_concat: "reassembles (concat slices) slices"
proof (induction slices)
  case Nil
  show ?case using reassembles_white [of "[]"] by simp
next
  case (Cons c cs)
  from reassembles_append [OF reassembles_one [of c] Cons] show ?case by simp
qed

lemma trim_parts:
  "\<exists>lead trail. list_all isWhiteSpace lead \<and> list_all isWhiteSpace trail \<and>
     cur = lead @ trim cur @ trail"
proof -
  let ?d = "dropWhile isWhiteSpace cur"
  have "?d = rev (dropWhile isWhiteSpace (rev ?d)) @ rev (takeWhile isWhiteSpace (rev ?d))"
    by (metis rev_append rev_rev_ident takeWhile_dropWhile_id)
  then have d: "?d = trim cur @ rev (takeWhile isWhiteSpace (rev ?d))"
    by (simp only: trim_def)
  have "cur = takeWhile isWhiteSpace cur @ ?d" by simp
  with d have "cur = takeWhile isWhiteSpace cur @ trim cur @ rev (takeWhile isWhiteSpace (rev ?d))"
    by simp
  moreover have "list_all isWhiteSpace (takeWhile isWhiteSpace cur)"
    by (auto simp: list_all_iff dest: set_takeWhileD)
  moreover have "list_all isWhiteSpace (rev (takeWhile isWhiteSpace (rev ?d)))"
    by (auto simp: list_all_iff dest: set_takeWhileD)
  ultimately show ?thesis by blast
qed

lemma reassembles_trim: "reassembles cur (pushTrimmed [] cur)"
proof -
  from trim_parts [of cur] obtain lead trail where p:
    "list_all isWhiteSpace lead" "list_all isWhiteSpace trail" "cur = lead @ trim cur @ trail"
    by blast
  show ?thesis
  proof (cases "trim cur = []")
    case True
    with p have "list_all isWhiteSpace cur" by (metis append_Nil list_all_append)
    with True show ?thesis by (simp add: pushTrimmed_def reassembles_white)
  next
    case False
    have "reassembles (lead @ trim cur @ trail) ([] @ [trim cur] @ [])"
      by (intro reassembles_append reassembles_white reassembles_one p)
    with False p(3) show ?thesis by (simp add: pushTrimmed_def)
  qed
qed

lemma pushTrimmed_append: "pushTrimmed chunks cur = chunks @ pushTrimmed [] cur"
  by (simp add: pushTrimmed_def)

lemma reassembles_push:
  assumes "reassembles s chunks"
  shows "reassembles (s @ cur) (pushTrimmed chunks cur)"
  using reassembles_append [OF assms reassembles_trim [of cur]] pushTrimmed_append [of chunks cur]
  by simp

lemma reassembles_push_gap:
  assumes "reassembles s chunks" and "list_all isWhiteSpace w"
  shows "reassembles (s @ cur @ w) (pushTrimmed chunks cur)"
  using reassembles_gap [OF reassembles_push [OF assms(1)] assms(2)] by simp

lemma joinWith_cases:
  assumes "reassembles s chunks" and "list_all isWhiteSpace sep"
  shows "\<exists>s'. reassembles s' chunks \<and> s' @ joinWith sep cur x = s @ cur @ sep @ x"
proof (cases "cur = []")
  case True
  from reassembles_gap [OF assms] True show ?thesis
    by (intro exI [of _ "s @ sep"]) (simp add: joinWith_def)
next
  case False
  with assms(1) show ?thesis by (intro exI [of _ s]) (simp add: joinWith_def)
qed

subsection \<open>The word tier\<close>

lemma splitSentenceLoop_reassembles:
  assumes "splitSentenceLoop maxLength ws chunks cur = Some out" and "reassembles s chunks"
  shows "reassembles (s @ cur @ prefixed [SP] ws) out"
  using assms
proof (induction ws arbitrary: chunks cur s)
  case Nil
  then show ?case using reassembles_push [of s chunks cur] by simp
next
  case (Cons word ws)
  let ?x = "mul_double maxLength sig06"
  let ?joined = "joinWith [SP] cur word"
  let ?rest = "prefixed [SP] ws"
  have sp: "list_all isWhiteSpace [SP]" by (simp add: isWhiteSpace_def)
  note pushed = reassembles_push_gap [OF Cons.prems(2) sp, of cur]
  consider (join) "le_double (length ?joined) ?x"
    | (cut) "\<not> le_double (length ?joined) ?x" "gt_double (length word) ?x"
    | (start) "\<not> le_double (length ?joined) ?x" "\<not> gt_double (length word) ?x"
    by blast
  then show ?case
  proof cases
    case join
    with Cons.prems(1)
    have l: "splitSentenceLoop maxLength ws chunks ?joined = Some out" by simp
    from joinWith_cases [OF Cons.prems(2) sp, of cur word] obtain s' where
      s': "reassembles s' chunks" "s' @ ?joined = s @ cur @ [SP] @ word" by blast
    from Cons.IH [OF l s'(1)] have "reassembles ((s' @ ?joined) @ ?rest) out" by simp
    with s'(2) show ?thesis by simp
  next
    case cut
    with Cons.prems(1) obtain chunks' w' where
      c: "cutWord maxLength (pushTrimmed chunks cur) word = Some (chunks', w')"
      and l: "splitSentenceLoop maxLength ws chunks' w' = Some out"
      by (auto split: option.splits)
    from cutWord_result [OF c] obtain slices where
      sl: "chunks' = pushTrimmed chunks cur @ slices" "concat slices @ w' = word" by blast
    from reassembles_append [OF pushed reassembles_concat [of slices]] sl(1)
    have "reassembles ((s @ cur @ [SP]) @ concat slices) chunks'" by simp
    from Cons.IH [OF l this] show ?thesis unfolding sl(2) [symmetric] by simp
  next
    case start
    with Cons.prems(1)
    have "splitSentenceLoop maxLength ws (pushTrimmed chunks cur) word = Some out" by simp
    from Cons.IH [OF this pushed] show ?thesis by simp
  qed
qed

lemma pushTrimmed_Nil [simp]: "pushTrimmed chunks [] = chunks"
  by (simp add: pushTrimmed_def trim_def)

lemma splitSentence_reassembles:
  assumes "splitSentence sentence maxLength = Some out"
  shows "reassembles sentence out"
proof -
  obtain word ws where w: "splitChar SP sentence = word # ws"
    by (cases "splitChar SP sentence") simp_all
  from joinStrings_splitChar [of SP sentence] w
  have t: "sentence = word @ prefixed [SP] ws" by (simp add: joinStrings_Cons)
  have e: "reassembles [] []" using reassembles_white [of "[]"] by simp
  let ?x = "mul_double maxLength sig06"
  from assms w have l: "splitSentenceLoop maxLength (word # ws) [] [] = Some out"
    by (simp add: splitSentence_def)
  show ?thesis
  proof (cases "gt_double (length word) ?x")
    case True
    with l obtain chunks' w' where
      c: "cutWord maxLength [] word = Some (chunks', w')"
      and l': "splitSentenceLoop maxLength ws chunks' w' = Some out"
      by (auto simp: joinWith_def gt_double_def split: option.splits)
    from cutWord_result [OF c] obtain slices where
      sl: "chunks' = slices" "concat slices @ w' = word" by auto
    from l' sl(1) have "splitSentenceLoop maxLength ws slices w' = Some out" by simp
    from splitSentenceLoop_reassembles [OF this reassembles_concat [of slices]]
    show ?thesis unfolding t sl(2) [symmetric] by simp
  next
    case False
    with l have "splitSentenceLoop maxLength ws [] word = Some out"
      by (simp add: joinWith_def gt_double_def split: if_splits)
    from splitSentenceLoop_reassembles [OF this e] t show ?thesis by simp
  qed
qed

subsection \<open>The sentence tier\<close>

lemma splitParagraphLoop_reassembles:
  assumes "splitParagraphLoop maxArguments maxLength ss chunks cur = Some out"
    and "reassembles s chunks"
  shows "reassembles (s @ cur @ prefixed [SP] ss) out"
  using assms
proof (induction ss arbitrary: chunks cur s)
  case Nil
  then show ?case using reassembles_push [of s chunks cur] by simp
next
  case (Cons sentence ss)
  let ?joined = "joinWith [SP] cur sentence"
  let ?rest = "prefixed [SP] ss"
  have sp: "list_all isWhiteSpace [SP]" by (simp add: isWhiteSpace_def)
  note pushed = reassembles_push_gap [OF Cons.prems(2) sp, of cur]
  consider (join) "le_double (length ?joined) (mul_double maxLength sig07)"
    | (divide) "\<not> le_double (length ?joined) (mul_double maxLength sig07)"
        "gt_double (length sentence) (mul_double maxLength sig05)"
    | (start) "\<not> le_double (length ?joined) (mul_double maxLength sig07)"
        "\<not> gt_double (length sentence) (mul_double maxLength sig05)"
    by blast
  then show ?case
  proof cases
    case join
    with Cons.prems(1)
    have l: "splitParagraphLoop maxArguments maxLength ss chunks ?joined = Some out" by simp
    from joinWith_cases [OF Cons.prems(2) sp, of cur sentence] obtain s' where
      s': "reassembles s' chunks" "s' @ ?joined = s @ cur @ [SP] @ sentence" by blast
    from Cons.IH [OF l s'(1)] have "reassembles ((s' @ ?joined) @ ?rest) out" by simp
    with s'(2) show ?thesis by simp
  next
    case divide
    with Cons.prems(1) obtain parts where
      p: "splitSentence sentence maxLength = Some parts"
      and l: "splitParagraphLoop maxArguments maxLength ss (pushTrimmed chunks cur @ parts) []
        = Some out"
      by (auto split: option.splits)
    from reassembles_append [OF pushed splitSentence_reassembles [OF p]]
    have "reassembles ((s @ cur @ [SP]) @ sentence) (pushTrimmed chunks cur @ parts)" .
    from Cons.IH [OF l this] show ?thesis by simp
  next
    case start
    with Cons.prems(1)
    have "splitParagraphLoop maxArguments maxLength ss (pushTrimmed chunks cur) sentence
      = Some out" by simp
    from Cons.IH [OF this pushed] show ?thesis by simp
  qed
qed

lemma splitParagraph_reassembles:
  assumes "splitParagraph maxArguments p maxLength = Some out"
  shows "reassembles (respace p) out"
proof -
  obtain sentence ss where w: "splitSentences False p = sentence # ss"
    by (cases "splitSentences False p") simp_all
  then have t: "respace p = sentence @ prefixed [SP] ss"
    by (simp add: respace_def joinStrings_Cons)
  have e: "reassembles [] []" using reassembles_white [of "[]"] by simp
  from assms w
  have l: "splitParagraphLoop maxArguments maxLength (sentence # ss) [] [] = Some out"
    by (simp add: splitParagraph_def)
  show ?thesis
  proof (cases "gt_double (length sentence) (mul_double maxLength sig07) \<and>
      gt_double (length sentence) (mul_double maxLength sig05)")
    case True
    with l obtain parts where
      c: "splitSentence sentence maxLength = Some parts"
      and l': "splitParagraphLoop maxArguments maxLength ss parts [] = Some out"
      by (auto simp: joinWith_def gt_double_def split: option.splits)
    from splitParagraphLoop_reassembles [OF l' splitSentence_reassembles [OF c]]
    show ?thesis using t by simp
  next
    case False
    with l have "splitParagraphLoop maxArguments maxLength ss [] sentence = Some out"
      by (auto simp: joinWith_def gt_double_def split: if_splits)
    from splitParagraphLoop_reassembles [OF this e] t show ?thesis by simp
  qed
qed

subsection \<open>The paragraph tier\<close>

lemma paragraphLoop_reassembles:
  assumes "paragraphLoop maxArguments maxLength ps chunks cur = Some out"
    and "reassembles s chunks"
  shows "\<exists>ps'. list_all2 (\<lambda>p' p. p' = p \<or> p' = respace p) ps' ps \<and>
    reassembles (s @ cur @ prefixed [LF, LF] ps') out"
  using assms
proof (induction ps arbitrary: chunks cur s)
  case Nil
  then show ?case using reassembles_push [of s chunks cur] by simp
next
  case (Cons para ps)
  let ?joined = "joinWith [LF, LF] cur para"
  let ?R = "\<lambda>p' p. p' = p \<or> p' = respace p"
  have sp: "list_all isWhiteSpace [LF, LF]" by (simp add: isWhiteSpace_def)
  note pushed = reassembles_push_gap [OF Cons.prems(2) sp, of cur]
  consider (join) "le_double (length ?joined) (mul_double maxLength sig08)"
    | (divide) "\<not> le_double (length ?joined) (mul_double maxLength sig08)"
        "gt_double (length para) (mul_double maxLength sig06)"
    | (start) "\<not> le_double (length ?joined) (mul_double maxLength sig08)"
        "\<not> gt_double (length para) (mul_double maxLength sig06)"
    by blast
  then show ?case
  proof cases
    case join
    with Cons.prems(1)
    have l: "paragraphLoop maxArguments maxLength ps chunks ?joined = Some out" by simp
    from joinWith_cases [OF Cons.prems(2) sp, of cur para] obtain s' where
      s': "reassembles s' chunks" "s' @ ?joined = s @ cur @ [LF, LF] @ para" by blast
    from Cons.IH [OF l s'(1)] obtain ps' where
      ps': "list_all2 ?R ps' ps"
      "reassembles ((s' @ ?joined) @ prefixed [LF, LF] ps') out" by auto
    from ps'(2) s'(2)
    have "reassembles (s @ cur @ prefixed [LF, LF] (para # ps')) out" by simp
    moreover from ps'(1) have "list_all2 ?R (para # ps') (para # ps)" by simp
    ultimately show ?thesis by blast
  next
    case divide
    with Cons.prems(1) obtain parts where
      p: "splitParagraph maxArguments para maxLength = Some parts"
      and l: "paragraphLoop maxArguments maxLength ps (pushTrimmed chunks cur @ parts) []
        = Some out"
      by (auto split: option.splits)
    from reassembles_append [OF pushed splitParagraph_reassembles [OF p]]
    have "reassembles ((s @ cur @ [LF, LF]) @ respace para) (pushTrimmed chunks cur @ parts)" .
    from Cons.IH [OF l this] obtain ps' where
      ps': "list_all2 ?R ps' ps"
      "reassembles (((s @ cur @ [LF, LF]) @ respace para) @ [] @ prefixed [LF, LF] ps')
         out" by blast
    from ps'(2)
    have "reassembles (s @ cur @ prefixed [LF, LF] (respace para # ps')) out" by simp
    moreover from ps'(1) have "list_all2 ?R (respace para # ps') (para # ps)" by simp
    ultimately show ?thesis by blast
  next
    case start
    with Cons.prems(1)
    have "paragraphLoop maxArguments maxLength ps (pushTrimmed chunks cur) para = Some out"
      by simp
    from Cons.IH [OF this pushed] obtain ps' where
      ps': "list_all2 ?R ps' ps"
      "reassembles ((s @ cur @ [LF, LF]) @ para @ prefixed [LF, LF] ps') out"
      by blast
    from ps'(2)
    have "reassembles (s @ cur @ prefixed [LF, LF] (para # ps')) out" by simp
    moreover from ps'(1) have "list_all2 ?R (para # ps') (para # ps)" by simp
    ultimately show ?thesis by blast
  qed
qed

lemma paragraphs_reassemble:
  assumes "paragraphLoop maxArguments maxLength (splitBlankLine t) [] [] = Some out"
  shows "\<exists>ps'. list_all2 (\<lambda>p' p. p' = p \<or> p' = respace p) ps' (splitBlankLine t) \<and>
    reassembles (joinStrings [LF, LF] ps') out"
proof -
  let ?R = "\<lambda>p' p. p' = p \<or> p' = respace p"
  obtain para ps where w: "splitBlankLine t = para # ps"
    by (cases "splitBlankLine t") simp_all
  have e: "reassembles [] []" using reassembles_white [of "[]"] by simp
  from assms w
  have l: "paragraphLoop maxArguments maxLength (para # ps) [] [] = Some out" by simp
  show ?thesis
  proof (cases "gt_double (length para) (mul_double maxLength sig08) \<and>
      gt_double (length para) (mul_double maxLength sig06)")
    case True
    with l obtain parts where
      c: "splitParagraph maxArguments para maxLength = Some parts"
      and l': "paragraphLoop maxArguments maxLength ps parts [] = Some out"
      by (auto simp: joinWith_def gt_double_def split: option.splits)
    from paragraphLoop_reassembles [OF l' splitParagraph_reassembles [OF c]] obtain ps' where
      ps': "list_all2 ?R ps' ps"
      "reassembles (respace para @ [] @ prefixed [LF, LF] ps') out" by blast
    from ps'(2) have "reassembles (joinStrings [LF, LF] (respace para # ps')) out"
      by (simp add: joinStrings_Cons)
    moreover from ps'(1) w have "list_all2 ?R (respace para # ps') (splitBlankLine t)" by simp
    ultimately show ?thesis by blast
  next
    case False
    with l have "paragraphLoop maxArguments maxLength ps [] para = Some out"
      by (auto simp: joinWith_def gt_double_def split: if_splits)
    from paragraphLoop_reassembles [OF this e] obtain ps' where
      ps': "list_all2 ?R ps' ps"
      "reassembles ([] @ para @ prefixed [LF, LF] ps') out" by blast
    from ps'(2) have "reassembles (joinStrings [LF, LF] (para # ps')) out"
      by (simp add: joinStrings_Cons)
    moreover from ps'(1) w have "list_all2 ?R (para # ps') (splitBlankLine t)" by simp
    ultimately show ?thesis by blast
  qed
qed

section \<open>What a call returns\<close>

lemma paragraphs_nonWhiteSpace:
  assumes "paragraphLoop maxArguments maxLength (splitBlankLine t) [] [] = Some chunks"
  shows "nonWhiteSpace (concat chunks) = nonWhiteSpace t"
  using paragraphLoop_nonWhiteSpace [OF assms] by (simp add: nonWhiteSpace_splitBlankLine)

lemma nonWhiteSpace_empty: "nonWhiteSpace s = [] \<longleftrightarrow> list_all isWhiteSpace s"
  by (induction s) (simp_all add: nonWhiteSpace_def)

lemma splitLongMessage_chunks:
  assumes "maxLength < length text"
    and "protectSpans text = (t, codeBlocks, inlineCodeBlocks)"
    and "splitLongMessage maxArguments text maxLength = Some out"
  shows "\<exists>chunks. paragraphLoop maxArguments maxLength (splitBlankLine t) [] [] = Some chunks \<and>
    out = (if chunks = [] then [text]
           else map (restoreChunk inlineCodeBlocks codeBlocks) chunks)"
proof (cases "paragraphLoop maxArguments maxLength (splitBlankLine t) [] []")
  case None
  with splitLongMessage_long [OF assms(1,2), of maxArguments] assms(3) show ?thesis by simp
next
  case (Some chunks)
  with splitLongMessage_long [OF assms(1,2), of maxArguments] assms(3)
  have "out = (if chunks = [] then [text]
               else map (restoreChunk inlineCodeBlocks codeBlocks) chunks)" by simp
  with Some show ?thesis by simp
qed

lemma splitLongMessage_long_returns:
  assumes "maxLength < length text"
    and "protectSpans text = (t, codeBlocks, inlineCodeBlocks)"
    and "2 \<le> maxLength" and "length t < maxArguments"
  shows "\<exists>out. splitLongMessage maxArguments text maxLength = Some out"
proof -
  from paragraphs_returns [OF assms(3,4)] obtain chunks where
    "paragraphLoop maxArguments maxLength (splitBlankLine t) [] [] = Some chunks" by blast
  with assms(1,2) show ?thesis by (simp add: splitLongMessage_long)
qed

lemma splitLongMessage_nonempty:
  assumes "splitLongMessage maxArguments text maxLength = Some out"
  shows "out \<noteq> []"
proof (cases "length text \<le> maxLength")
  case True
  with assms show ?thesis by (auto simp: splitLongMessage_def)
next
  case False
  obtain t cbs ics where spans: "protectSpans text = (t, cbs, ics)" by (cases "protectSpans text")
  from False have "maxLength < length text" by simp
  from splitLongMessage_chunks [OF this spans assms] show ?thesis
    by (auto split: if_splits)
qed

section \<open>The short message\<close>

text \<open>
  C5. A text whose length is at most \<open>maxLength\<close> is returned as the one-element list
  holding the text itself: nothing is split and nothing is added.
\<close>

theorem splitLongMessage_short:
  "length text \<le> maxLength \<Longrightarrow> splitLongMessage maxArguments text maxLength = Some [text]"
  by (simp add: splitLongMessage_def)

theorem splitLongMessage_short_witness:
  "length (ascii ''Halo **dunia**'') \<le> 2000 \<and>
   splitLongMessage exampleArguments (ascii ''Halo **dunia**'') 2000 = Some [ascii ''Halo **dunia**'']"
  using splitLongMessage_short [of "ascii ''Halo **dunia**''" 2000] by (simp add: ascii_def)

section \<open>The budget\<close>

text \<open>
  C1 fails as it is stated. With a budget of 50 the text \<open>twoCommands\<close> comes back as one
  chunk of 59 code units, although it holds no code span longer than 29: the two tokens
  fit into one chunk and the two restored spans together do not.
\<close>

theorem budget_counterexample:
  "splitLongMessage exampleArguments twoCommands 50 = Some [twoCommands] \<and> length twoCommands = 59 \<and>
   fst (snd (protectSpans twoCommands)) = [] \<and>
   map length (snd (snd (protectSpans twoCommands))) = [29, 29]"
  by (simp add: twoCommands_def eval_simps)

text \<open>
  C1, amended. Take a text longer than \<open>maxLength\<close>. When \<open>maxLength\<close> is 2 or more and
  the engine passes as many arguments as the text with placeholders has code units,
  \<open>splitLongMessage\<close> returns. Whenever it returns, the tiers have produced chunks that are
  each within \<open>maxLength\<close> before the code spans are put back. Either there is no such
  chunk, the text with placeholders is white space only, and the text is returned whole;
  or the chunks returned are these chunks with the tokens replaced by their spans. So for
  a text without a backtick that is not white space only, every chunk returned is within
  \<open>maxLength\<close>; a chunk with restored spans may exceed it.
\<close>

theorem budget_before_restoration:
  assumes "maxLength < length text"
    and "protectSpans text = (t, codeBlocks, inlineCodeBlocks)"
  shows "(2 \<le> maxLength \<and> length t < maxArguments \<longrightarrow>
            (\<exists>out. splitLongMessage maxArguments text maxLength = Some out)) \<and>
         (\<forall>out. splitLongMessage maxArguments text maxLength = Some out \<longrightarrow>
            (\<exists>chunks.
               paragraphLoop maxArguments maxLength (splitBlankLine t) [] [] = Some chunks \<and>
               list_all (\<lambda>c. length c \<le> maxLength) chunks \<and>
               (if chunks = [] then list_all isWhiteSpace t \<and> out = [text]
                else out = map (restoreChunk inlineCodeBlocks codeBlocks) chunks) \<and>
               (BACKTICK \<notin> set text \<and> \<not> list_all isWhiteSpace text \<longrightarrow>
                  list_all (\<lambda>c. length c \<le> maxLength) out)))"
proof (intro conjI impI allI)
  assume "2 \<le> maxLength \<and> length t < maxArguments"
  then show "\<exists>out. splitLongMessage maxArguments text maxLength = Some out"
    using splitLongMessage_long_returns [OF assms] by blast
next
  fix out
  assume "splitLongMessage maxArguments text maxLength = Some out"
  from splitLongMessage_chunks [OF assms this] obtain chunks where
    loop: "paragraphLoop maxArguments maxLength (splitBlankLine t) [] [] = Some chunks"
    and out: "out = (if chunks = [] then [text]
                     else map (restoreChunk inlineCodeBlocks codeBlocks) chunks)"
    by blast
  from paragraphLoop_bound [OF loop]
  have bound: "list_all (\<lambda>c. length c \<le> maxLength) chunks" by (simp add: list_all_iff)
  have white: "list_all isWhiteSpace t" if "chunks = []"
    using paragraphs_nonWhiteSpace [OF loop] that by (simp flip: nonWhiteSpace_empty)
  have plain: "list_all (\<lambda>c. length c \<le> maxLength) out"
    if "BACKTICK \<notin> set text \<and> \<not> list_all isWhiteSpace text"
  proof -
    from that protectSpans_plain [of "text"] assms(2)
    have "t = text" "codeBlocks = []" "inlineCodeBlocks = []" by simp_all
    moreover from this that white have "chunks \<noteq> []" by blast
    ultimately show ?thesis using out bound by simp
  qed
  from loop bound white out plain
  show "\<exists>chunks.
      paragraphLoop maxArguments maxLength (splitBlankLine t) [] [] = Some chunks \<and>
      list_all (\<lambda>c. length c \<le> maxLength) chunks \<and>
      (if chunks = [] then list_all isWhiteSpace t \<and> out = [text]
       else out = map (restoreChunk inlineCodeBlocks codeBlocks) chunks) \<and>
      (BACKTICK \<notin> set text \<and> \<not> list_all isWhiteSpace text \<longrightarrow>
         list_all (\<lambda>c. length c \<le> maxLength) out)"
    by (intro exI [of _ chunks]) simp
qed

theorem budget_before_restoration_witness:
  "10 < length twoParagraphs \<and> protectSpans twoParagraphs = (twoParagraphs, [], []) \<and>
   BACKTICK \<notin> set twoParagraphs \<and> \<not> list_all isWhiteSpace twoParagraphs \<and>
   splitLongMessage exampleArguments twoParagraphs 10 =
     Some [ascii ''Hello!'', ascii ''Hi. Ok.''] \<and>
   list_all (\<lambda>c. length c \<le> 10) [ascii ''Hello!'', ascii ''Hi. Ok.'']"
proof -
  have a: "10 < length twoParagraphs" by (simp add: twoParagraphs_def ascii_def)
  have d: "BACKTICK \<notin> set twoParagraphs" by (simp add: twoParagraphs_def ascii_def)
  have e: "\<not> list_all isWhiteSpace twoParagraphs"
    by (simp add: twoParagraphs_def ascii_def isWhiteSpace_def)
  have b: "protectSpans twoParagraphs = (twoParagraphs, [], [])"
    using d by (rule protectSpans_plain)
  have c: "splitLongMessage exampleArguments twoParagraphs 10 =
      Some [ascii ''Hello!'', ascii ''Hi. Ok.'']"
    by (simp add: twoParagraphs_def eval_simps)
  from budget_before_restoration [OF a b, of exampleArguments] c d e
  have "list_all (\<lambda>c. length c \<le> 10) [ascii ''Hello!'', ascii ''Hi. Ok.'']" by blast
  with a b c d e show ?thesis by blast
qed

section \<open>Validation and restoration\<close>

text \<open>
  C3 fails as it is stated. With a budget of 40 the text \<open>longFence\<close>, one fenced block of
  51 code units, is cut to its token, which passes the validation, and is returned whole
  after the restoration: the chunk over the budget reaches the caller, where the line
  splitter would have cut it in two.
\<close>

theorem revalidation_counterexample:
  "splitLongMessage exampleArguments longFence 40 = Some [longFence] \<and> length longFence = 51 \<and>
   map_option (map length) (forceSplit longFence 40) = Some [39, 11]"
  by (simp add: longFence_def eval_simps)

text \<open>
  C3, amended. The chunks are validated against \<open>maxLength\<close> before the restoration, not
  after it. The validation leaves every chunk of the tiers as it is (none is longer than
  \<open>maxLength\<close> there, so \<open>forceSplit\<close> is not run), and the chunks are returned as the
  restoration leaves them, with no check of the restored length.
\<close>

theorem validation_before_restoration:
  assumes "maxLength < length text"
    and "protectSpans text = (t, codeBlocks, inlineCodeBlocks)"
    and "paragraphLoop maxArguments maxLength (splitBlankLine t) [] [] = Some chunks"
  shows "validateChunks maxArguments maxLength chunks = Some chunks \<and>
         splitLongMessage maxArguments text maxLength =
           Some (if chunks = [] then [text]
                 else map (restoreChunk inlineCodeBlocks codeBlocks) chunks)"
proof
  from paragraphLoop_bound [OF assms(3)] show "validateChunks maxArguments maxLength chunks = Some chunks"
    by (simp add: validateChunks_within)
  from assms show "splitLongMessage maxArguments text maxLength =
      Some (if chunks = [] then [text]
            else map (restoreChunk inlineCodeBlocks codeBlocks) chunks)"
    by (simp add: splitLongMessage_long)
qed

theorem validation_before_restoration_witness:
  "40 < length longFence \<and>
   protectSpans longFence = (codeBlockToken 0, [longFence], []) \<and>
   paragraphLoop exampleArguments 40 (splitBlankLine (codeBlockToken 0)) [] [] = Some [codeBlockToken 0] \<and>
   validateChunks exampleArguments 40 [codeBlockToken 0] = Some [codeBlockToken 0] \<and>
   splitLongMessage exampleArguments longFence 40 = Some [restoreChunk [] [longFence] (codeBlockToken 0)]"
proof -
  have a: "40 < length longFence" by (simp add: longFence_def ascii_def)
  have b: "protectSpans longFence = (codeBlockToken 0, [longFence], [])"
    by (simp add: longFence_def eval_simps)
  have c: "paragraphLoop exampleArguments 40 (splitBlankLine (codeBlockToken 0)) [] [] = Some [codeBlockToken 0]"
    by (simp add: eval_simps)
  have d: "[codeBlockToken 0] \<noteq> []" by simp
  from validation_before_restoration [OF a b c] a b c d show ?thesis by simp
qed

section \<open>Concatenation\<close>

text \<open>
  C4 fails as it is stated. With a budget of 10 the second paragraph of \<open>twoParagraphs\<close>
  goes through the sentence tier, which joins its two sentences with a space where the
  text has a line feed: the second chunk is no piece of the text, and the text is not the
  chunks with white space around them.
\<close>

theorem fidelity_counterexample:
  "splitLongMessage exampleArguments twoParagraphs 10 = Some [ascii ''Hello!'', ascii ''Hi. Ok.''] \<and>
   \<not> reassembles twoParagraphs [ascii ''Hello!'', ascii ''Hi. Ok.'']"
proof
  show "splitLongMessage exampleArguments twoParagraphs 10 = Some [ascii ''Hello!'', ascii ''Hi. Ok.'']"
    by (simp add: twoParagraphs_def eval_simps)
  show "\<not> reassembles twoParagraphs [ascii ''Hello!'', ascii ''Hi. Ok.'']"
  proof
    assume "reassembles twoParagraphs [ascii ''Hello!'', ascii ''Hi. Ok.'']"
    then obtain gaps where "length gaps = Suc (length [ascii ''Hello!'', ascii ''Hi. Ok.''])"
      and "weave gaps [ascii ''Hello!'', ascii ''Hi. Ok.''] = twoParagraphs"
      by (auto simp: reassembles_def)
    from weave_set [OF this(1), of "ascii ''Hi. Ok.''"] this(2)
    have "set (ascii ''Hi. Ok.'') \<subseteq> set twoParagraphs" by simp
    then show False by (simp add: twoParagraphs_def ascii_def)
  qed
qed

text \<open>
  C4, amended. Take a text longer than \<open>maxLength\<close>. When \<open>maxLength\<close> is 2 or more and
  the engine passes as many arguments as the text with placeholders has code units,
  \<open>splitLongMessage\<close> returns. Whenever it returns, the chunks before the restoration,
  with white space before, between and after them, are the text with placeholders in
  which, in some paragraphs, every run of white space that follows \<open>.\<close>, \<open>!\<close> or \<open>?\<close> is
  replaced by one space; the paragraphs are the parts between blank lines. No code unit
  that is not white space is dropped or doubled. For a text without a backtick the chunks
  returned are these chunks, and the text with placeholders is the text.
\<close>

theorem fidelity_up_to_white_space:
  assumes "maxLength < length text"
    and "protectSpans text = (t, codeBlocks, inlineCodeBlocks)"
  shows "(2 \<le> maxLength \<and> length t < maxArguments \<longrightarrow>
            (\<exists>out. splitLongMessage maxArguments text maxLength = Some out)) \<and>
         (\<forall>out. splitLongMessage maxArguments text maxLength = Some out \<longrightarrow>
            (\<exists>chunks paragraphs.
               paragraphLoop maxArguments maxLength (splitBlankLine t) [] [] = Some chunks \<and>
               out = (if chunks = [] then [text]
                      else map (restoreChunk inlineCodeBlocks codeBlocks) chunks) \<and>
               list_all2 (\<lambda>p' p. p' = p \<or> p' = respace p) paragraphs (splitBlankLine t) \<and>
               joinStrings [LF, LF] (splitBlankLine t) = t \<and>
               reassembles (joinStrings [LF, LF] paragraphs) chunks \<and>
               nonWhiteSpace (concat chunks) = nonWhiteSpace t \<and>
               (BACKTICK \<notin> set text \<longrightarrow>
                  t = text \<and> out = (if chunks = [] then [text] else chunks))))"
proof (intro conjI impI allI)
  assume "2 \<le> maxLength \<and> length t < maxArguments"
  then show "\<exists>out. splitLongMessage maxArguments text maxLength = Some out"
    using splitLongMessage_long_returns [OF assms] by blast
next
  fix out
  assume "splitLongMessage maxArguments text maxLength = Some out"
  from splitLongMessage_chunks [OF assms this] obtain chunks where
    loop: "paragraphLoop maxArguments maxLength (splitBlankLine t) [] [] = Some chunks"
    and out: "out = (if chunks = [] then [text]
                     else map (restoreChunk inlineCodeBlocks codeBlocks) chunks)"
    by blast
  from paragraphs_reassemble [OF loop] obtain paragraphs where
    ps: "list_all2 (\<lambda>p' p. p' = p \<or> p' = respace p) paragraphs (splitBlankLine t)"
    and re: "reassembles (joinStrings [LF, LF] paragraphs) chunks" by blast
  note same = paragraphs_nonWhiteSpace [OF loop]
  have plain: "t = text \<and> out = (if chunks = [] then [text] else chunks)"
    if "BACKTICK \<notin> set text"
  proof -
    from that protectSpans_plain [of "text"] assms(2)
    have "t = text" "codeBlocks = []" "inlineCodeBlocks = []" by simp_all
    with out show ?thesis by simp
  qed
  from loop out ps re same plain joinStrings_splitBlankLine [of t]
  show "\<exists>chunks paragraphs.
      paragraphLoop maxArguments maxLength (splitBlankLine t) [] [] = Some chunks \<and>
      out = (if chunks = [] then [text]
             else map (restoreChunk inlineCodeBlocks codeBlocks) chunks) \<and>
      list_all2 (\<lambda>p' p. p' = p \<or> p' = respace p) paragraphs (splitBlankLine t) \<and>
      joinStrings [LF, LF] (splitBlankLine t) = t \<and>
      reassembles (joinStrings [LF, LF] paragraphs) chunks \<and>
      nonWhiteSpace (concat chunks) = nonWhiteSpace t \<and>
      (BACKTICK \<notin> set text \<longrightarrow>
         t = text \<and> out = (if chunks = [] then [text] else chunks))"
    by (intro exI [of _ chunks] exI [of _ paragraphs]) simp
qed

theorem fidelity_up_to_white_space_witness:
  "10 < length twoParagraphs \<and> protectSpans twoParagraphs = (twoParagraphs, [], []) \<and>
   splitLongMessage exampleArguments twoParagraphs 10 =
     Some [ascii ''Hello!'', ascii ''Hi. Ok.''] \<and>
   splitBlankLine twoParagraphs = [ascii ''Hello!'', ascii ''Hi.'' @ [LF] @ ascii ''Ok.''] \<and>
   respace (ascii ''Hi.'' @ [LF] @ ascii ''Ok.'') = ascii ''Hi. Ok.'' \<and>
   (\<exists>paragraphs.
      list_all2 (\<lambda>p' p. p' = p \<or> p' = respace p) paragraphs (splitBlankLine twoParagraphs) \<and>
      reassembles (joinStrings [LF, LF] paragraphs) [ascii ''Hello!'', ascii ''Hi. Ok.''])"
proof -
  have a: "10 < length twoParagraphs" by (simp add: twoParagraphs_def ascii_def)
  have d: "BACKTICK \<notin> set twoParagraphs" by (simp add: twoParagraphs_def ascii_def)
  have b: "protectSpans twoParagraphs = (twoParagraphs, [], [])"
    using d by (rule protectSpans_plain)
  have c: "splitLongMessage exampleArguments twoParagraphs 10 =
      Some [ascii ''Hello!'', ascii ''Hi. Ok.'']"
    by (simp add: twoParagraphs_def eval_simps)
  have e: "splitBlankLine twoParagraphs = [ascii ''Hello!'', ascii ''Hi.'' @ [LF] @ ascii ''Ok.'']"
    by (simp add: twoParagraphs_def ascii_def)
  have f: "respace (ascii ''Hi.'' @ [LF] @ ascii ''Ok.'') = ascii ''Hi. Ok.''"
    by (simp add: respace_def ascii_def isSentenceEnd_def isWhiteSpace_def)
  from fidelity_up_to_white_space [OF a b, of exampleArguments] c d
  obtain chunks paragraphs where
    "[ascii ''Hello!'', ascii ''Hi. Ok.''] = (if chunks = [] then [twoParagraphs] else chunks)"
    "list_all2 (\<lambda>p' p. p' = p \<or> p' = respace p) paragraphs (splitBlankLine twoParagraphs)"
    "reassembles (joinStrings [LF, LF] paragraphs) chunks"
    by blast
  moreover from this(1) have "chunks = [ascii ''Hello!'', ascii ''Hi. Ok.'']"
    by (cases "chunks = []") (simp_all add: twoParagraphs_def ascii_def)
  ultimately have "\<exists>paragraphs.
      list_all2 (\<lambda>p' p. p' = p \<or> p' = respace p) paragraphs (splitBlankLine twoParagraphs) \<and>
      reassembles (joinStrings [LF, LF] paragraphs) [ascii ''Hello!'', ascii ''Hi. Ok.'']"
    by blast
  with a b c e f show ?thesis by blast
qed

section \<open>Blank text\<close>

text \<open>
  C10 fails as it is stated. Ten tabs are white space only and longer than a budget of 5,
  and three chunks of three tabs come back: the slices of a long word are pushed as they
  are cut, untrimmed. And with a budget of 1 the slice length \<open>Math.floor(1 * 0.6)\<close> is
  0: the loop that cuts the word \<open>ab\<close> pushes empty slices and the word gets no shorter,
  so the call returns no list.
\<close>

theorem blank_text_counterexample:
  "list_all isWhiteSpace [9, 9, 9, 9, 9, 9, 9, 9, 9, 9] \<and>
   splitLongMessage exampleArguments [9, 9, 9, 9, 9, 9, 9, 9, 9, 9] 5 = Some [[9, 9, 9], [9, 9, 9], [9, 9, 9]] \<and>
   splitLongMessage exampleArguments (ascii ''ab'') 1 = None"
proof -
  have "list_all isWhiteSpace [9, 9, 9, 9, 9, 9, 9, 9, 9, 9]" by (simp add: isWhiteSpace_def)
  moreover have "splitLongMessage exampleArguments [9, 9, 9, 9, 9, 9, 9, 9, 9, 9] 5 =
      Some [[9, 9, 9], [9, 9, 9], [9, 9, 9]]"
    by (simp add: eval_simps)
  moreover have "splitLongMessage exampleArguments (ascii ''ab'') 1 = None"
    by (simp add: eval_defs cutWord_stuck [OF floor06_one])
  ultimately show ?thesis by simp
qed

text \<open>
  C10, amended. A list that \<open>splitLongMessage\<close> returns is never empty. It returns one
  when \<open>maxLength\<close> is 2 or more and the engine passes as many arguments as the text with
  placeholders has code units. For a text longer than a budget of 2 or more that is made
  of spaces and line feeds only, every tier yields nothing and the text itself comes back
  as the one chunk, whatever the engine passes.
\<close>

theorem blank_text_fallback:
  "(\<forall>out. splitLongMessage maxArguments text maxLength = Some out \<longrightarrow> out \<noteq> []) \<and>
   (2 \<le> maxLength \<and> length (fst (protectSpans text)) < maxArguments \<longrightarrow>
      (\<exists>out. splitLongMessage maxArguments text maxLength = Some out \<and> out \<noteq> [])) \<and>
   (2 \<le> maxLength \<and> maxLength < length text \<and> set text \<subseteq> {SP, LF} \<longrightarrow>
      splitLongMessage maxArguments text maxLength = Some [text])"
proof (intro conjI impI allI)
  fix out
  assume "splitLongMessage maxArguments text maxLength = Some out"
  then show "out \<noteq> []" by (rule splitLongMessage_nonempty)
next
  assume "2 \<le> maxLength \<and> length (fst (protectSpans text)) < maxArguments"
  then show "\<exists>out. splitLongMessage maxArguments text maxLength = Some out \<and> out \<noteq> []"
    using splitLongMessage_returns by blast
next
  assume "2 \<le> maxLength \<and> maxLength < length text \<and> set text \<subseteq> {SP, LF}"
  then show "splitLongMessage maxArguments text maxLength = Some [text]"
    using splitLongMessage_blank by blast
qed

theorem blank_text_fallback_witness:
  "(2::nat) \<le> 4 \<and> 4 < length [LF, LF, SP, LF, LF, LF] \<and>
   set [LF, LF, SP, LF, LF, LF] \<subseteq> {SP, LF} \<and>
   length (fst (protectSpans [LF, LF, SP, LF, LF, LF])) < exampleArguments \<and>
   splitLongMessage exampleArguments [LF, LF, SP, LF, LF, LF] 4 = Some [[LF, LF, SP, LF, LF, LF]] \<and>
   (\<exists>out. splitLongMessage exampleArguments (ascii ''ab cd'') 2 = Some out \<and> out \<noteq> [])"
proof -
  have a: "(2::nat) \<le> 4" by simp
  have b: "4 < length [LF, LF, SP, LF, LF, LF]" by simp
  have c: "set [LF, LF, SP, LF, LF, LF] \<subseteq> {SP, LF}" by simp
  have d: "length (fst (protectSpans [LF, LF, SP, LF, LF, LF])) < exampleArguments"
    by (simp add: protectSpans_plain exampleArguments_def)
  have e: "(2::nat) \<le> 2 \<and> length (fst (protectSpans (ascii ''ab cd''))) < exampleArguments"
    by (simp add: protectSpans_plain exampleArguments_def ascii_def)
  from blank_text_fallback [of exampleArguments "[LF, LF, SP, LF, LF, LF]" 4] a b c
  have "splitLongMessage exampleArguments [LF, LF, SP, LF, LF, LF] 4 =
      Some [[LF, LF, SP, LF, LF, LF]]" by blast
  moreover from blank_text_fallback [of exampleArguments "ascii ''ab cd''" 2] e
  have "\<exists>out. splitLongMessage exampleArguments (ascii ''ab cd'') 2 = Some out \<and> out \<noteq> []"
    by blast
  ultimately show ?thesis using a b c d by blast
qed

section \<open>One line of 10000 code units\<close>

text \<open>
  C2 fails as it is stated. A line of 10000 letters \<open>a\<close> is cut by the word tier into
  slices of \<open>Math.floor(2000 * 0.6) = 1200\<close> code units: nine chunks, eight of 1200 and
  one of 400, not five of 2000. (The line splitter \<open>forceSplit\<close> is not reached.)
\<close>

theorem unbroken_line_counterexample:
  "length (replicate 10000 (97::nat)) = 10000 \<and>
   map_option (map length) (splitLongMessage exampleArguments (replicate 10000 97) 2000) =
     Some [1200, 1200, 1200, 1200, 1200, 1200, 1200, 1200, 400]"
proof -
  have "\<forall>c\<in>set (replicate 400 (97::nat)). \<not> isWhiteSpace c" by (simp add: isWhiteSpace_def)
  then have "trim (replicate 400 97) = replicate 400 97" by (rule trim_unchanged)
  moreover have "splitLongMessage exampleArguments (replicate 10000 97) 2000 =
    Some (pushTrimmed
      [take 1200 (replicate 10000 97), take 1200 (drop 1200 (replicate 10000 97)),
       take 1200 (drop 2400 (replicate 10000 97)), take 1200 (drop 3600 (replicate 10000 97)),
       take 1200 (drop 4800 (replicate 10000 97)), take 1200 (drop 6000 (replicate 10000 97)),
       take 1200 (drop 7200 (replicate 10000 97)), take 1200 (drop 8400 (replicate 10000 97))]
      (drop 9600 (replicate 10000 97)))"
    by (rule unbroken_line) (simp_all add: isSentenceEnd_def exampleArguments_def)
  ultimately show ?thesis by (simp add: pushTrimmed_def)
qed

text \<open>
  C2, amended. For a line of 10000 code units without space, line feed, sentence
  punctuation or backtick, \<open>splitLongMessage\<close> with a budget of 2000 (on an engine that
  passes nine arguments in a call) returns the first
  eight slices of 1200 code units of the line, and then the remaining 400 code units
  trimmed, when they are not all white space. When the line has no white space at all,
  these are nine chunks of 1200, ..., 1200 and 400 code units.
\<close>

theorem unbroken_line_chunks:
  assumes "length line = 10000" and "BACKTICK \<notin> set line" and "SP \<notin> set line"
    and "LF \<notin> set line" and "\<forall>c\<in>set line. \<not> isSentenceEnd c"
    and "9 \<le> maxArguments"
  shows "\<exists>out. splitLongMessage maxArguments line 2000 = Some out \<and>
           out = pushTrimmed
             [take 1200 line, take 1200 (drop 1200 line), take 1200 (drop 2400 line),
              take 1200 (drop 3600 line), take 1200 (drop 4800 line), take 1200 (drop 6000 line),
              take 1200 (drop 7200 line), take 1200 (drop 8400 line)] (drop 9600 line) \<and>
           map length (take 8 out) = [1200, 1200, 1200, 1200, 1200, 1200, 1200, 1200] \<and>
           ((\<forall>c\<in>set line. \<not> isWhiteSpace c) \<longrightarrow>
              map length out = [1200, 1200, 1200, 1200, 1200, 1200, 1200, 1200, 400])"
proof -
  let ?slices = "[take 1200 line, take 1200 (drop 1200 line), take 1200 (drop 2400 line),
              take 1200 (drop 3600 line), take 1200 (drop 4800 line), take 1200 (drop 6000 line),
              take 1200 (drop 7200 line), take 1200 (drop 8400 line)]"
  let ?out = "pushTrimmed ?slices (drop 9600 line)"
  have out: "splitLongMessage maxArguments line 2000 = Some ?out" using assms by (rule unbroken_line)
  have lengths: "map length ?slices = [1200, 1200, 1200, 1200, 1200, 1200, 1200, 1200]"
    using assms(1) by simp
  have "take 8 ?out = ?slices" by (simp add: pushTrimmed_def)
  with lengths
  have first: "map length (take 8 ?out) = [1200, 1200, 1200, 1200, 1200, 1200, 1200, 1200]"
    by (simp only:)
  have last: "map length ?out = [1200, 1200, 1200, 1200, 1200, 1200, 1200, 1200, 400]"
    if solid: "\<forall>c\<in>set line. \<not> isWhiteSpace c"
  proof -
    have "set (drop 9600 line) \<subseteq> set line" by (rule set_drop_subset)
    with solid have "\<forall>c\<in>set (drop 9600 line). \<not> isWhiteSpace c" by blast
    then have t: "trim (drop 9600 line) = drop 9600 line" by (rule trim_unchanged)
    have l: "length (drop 9600 line) = 400" using assms(1) by simp
    then have "drop 9600 line \<noteq> []" by auto
    with t have "?out = ?slices @ [drop 9600 line]"
      by (simp only: pushTrimmed_def not_False_eq_True if_True)
    then have "map length ?out = map length ?slices @ [length (drop 9600 line)]"
      by (simp only: map_append list.map)
    with lengths l show ?thesis by (simp only: append.simps)
  qed
  show ?thesis
  proof (intro exI conjI impI)
    show "splitLongMessage maxArguments line 2000 = Some ?out" by (rule out)
    show "?out = ?out" by (rule refl)
    show "map length (take 8 ?out) = [1200, 1200, 1200, 1200, 1200, 1200, 1200, 1200]"
      by (rule first)
    show "map length ?out = [1200, 1200, 1200, 1200, 1200, 1200, 1200, 1200, 400]"
      if "\<forall>c\<in>set line. \<not> isWhiteSpace c" using that by (rule last)
  qed
qed

theorem unbroken_line_chunks_witness:
  "map length (the (splitLongMessage exampleArguments (replicate 10000 120) 2000)) =
     [1200, 1200, 1200, 1200, 1200, 1200, 1200, 1200, 400]"
proof -
  have a: "length (replicate 10000 (120::nat)) = 10000" by simp
  have b: "BACKTICK \<notin> set (replicate 10000 (120::nat))" by simp
  have c: "SP \<notin> set (replicate 10000 (120::nat))" by simp
  have d: "LF \<notin> set (replicate 10000 (120::nat))" by simp
  have e: "\<forall>c\<in>set (replicate 10000 (120::nat)). \<not> isSentenceEnd c"
    by (simp add: isSentenceEnd_def)
  have f: "\<forall>c\<in>set (replicate 10000 (120::nat)). \<not> isWhiteSpace c"
    by (simp add: isWhiteSpace_def)
  have g: "9 \<le> exampleArguments" by (simp add: exampleArguments_def)
  from unbroken_line_chunks [OF a b c d e g] f show ?thesis by auto
qed

section \<open>Code blocks in one piece\<close>

text \<open>
  C6 does not hold of the code. In \<open>fenceInWord\<close> the block \<open>```x```\<close> of seven code
  units stands inside a word of 2202 code units. With the budget of 2000 the word tier
  cuts the text with placeholders after 1200 code units, through the token of the block:
  the block is in neither chunk, and the two halves of its token are.
\<close>

theorem fence_in_long_word:
  "splitLongMessage exampleArguments fenceInWord 2000 =
     Some [replicate 1195 97 @ ascii ''___CO'', ascii ''DE_BLOCK_0___'' @ replicate 1000 98]"
proof -
  let ?t = "replicate 1195 97 @ codeBlockToken 0 @ replicate 1000 98"
  let ?code = "ascii ''```x```''"
  have token: "codeBlockToken 0 = ascii ''___CODE_BLOCK_0___''"
    by (simp add: codeBlockToken_def decimal.simps ascii_def)
  have "findFence fenceInWord = Some (replicate 1195 97, ascii ''x```'' @ replicate 1000 98)"
    using findFence_behind [of "replicate 1195 97" "ascii ''x```'' @ replicate 1000 98"]
    by (simp add: fenceInWord_def ascii_def)
  moreover have "findFence (ascii ''x```'' @ replicate 1000 98) = Some (ascii ''x'', replicate 1000 98)"
    using findFence_behind [of "ascii ''x''" "replicate 1000 98"] by (simp add: ascii_def)
  moreover have "extractCodeBlocks (replicate 1000 98) (Suc 0) = (replicate 1000 98, [])"
    by (rule extractCodeBlocks_plain) simp
  ultimately have blocks: "extractCodeBlocks fenceInWord 0 = (?t, [?code])"
    by (subst extractCodeBlocks.simps) (simp add: ascii_def)
  have "extractInlineCode ?t 0 = (?t, [])"
    by (rule extractInlineCode_plain) (simp add: token ascii_def)
  with blocks have spans: "protectSpans fenceInWord = (?t, [?code], [])"
    by (simp add: protectSpans_def)
  have long: "2000 < length fenceInWord" by (simp add: fenceInWord_def ascii_def)
  have "paragraphLoop exampleArguments 2000 (splitBlankLine ?t) [] [] =
      Some [take 1200 ?t, drop 1200 ?t]"
    by (rule one_cut)
      (auto simp: token ascii_def isWhiteSpace_def isSentenceEnd_def exampleArguments_def)
  moreover have "take 1200 ?t = replicate 1195 97 @ ascii ''___CO''"
    by (simp add: token ascii_def)
  moreover have "drop 1200 ?t = ascii ''DE_BLOCK_0___'' @ replicate 1000 98"
    by (simp add: token ascii_def)
  ultimately have chunks: "paragraphLoop exampleArguments 2000 (splitBlankLine ?t) [] [] =
      Some [replicate 1195 97 @ ascii ''___CO'', ascii ''DE_BLOCK_0___'' @ replicate 1000 98]"
    by simp
  have first: "restoreChunk [] [?code] (replicate 1195 97 @ ascii ''___CO'') =
      replicate 1195 97 @ ascii ''___CO''"
    unfolding restoreChunk_def restoreWith.simps
    by (rule replaceAll_absent [where c = 75])
      (simp add: token ascii_def count_list_replicate)
  have second: "restoreChunk [] [?code] (ascii ''DE_BLOCK_0___'' @ replicate 1000 98) =
      ascii ''DE_BLOCK_0___'' @ replicate 1000 98"
    unfolding restoreChunk_def restoreWith.simps
    by (rule replaceAll_absent [where c = 67])
      (simp add: token ascii_def count_list_replicate)
  from splitLongMessage_long [OF long spans] chunks first second show ?thesis by simp
qed

section \<open>Placeholder tokens\<close>




section \<open>Parentheses and links\<close>

text \<open>
  C8 does not hold of the code. The checker computes the links and their parentheses and
  then compares the parentheses of the whole text. In \<open>unclosedInLink\<close> the only
  parentheses are those of the link and no other check fires, yet the checker reports a
  problem; in \<open>wikiLink\<close> a closing parenthesis stands outside the link and no opening
  one does, and the checker reports nothing.
\<close>

theorem parentheses_of_links_are_counted:
  "hasProblematicMarkdown unclosedInLink = True \<and>
   count_list (textToAnalyze unclosedInLink) 42 = 0 \<and>
   matchRegex underscore None (textToAnalyze unclosedInLink) = [] \<and>
   count_list (textToAnalyze unclosedInLink) 91 = count_list (textToAnalyze unclosedInLink) 93 \<and>
   links (textToAnalyze unclosedInLink) = [unclosedInLink] \<and>
   count_list (textToAnalyze unclosedInLink) 40 - openParensInLinks (textToAnalyze unclosedInLink) =
   count_list (textToAnalyze unclosedInLink) 41 - closeParensInLinks (textToAnalyze unclosedInLink) \<and>
   hasProblematicMarkdown wikiLink = False \<and>
   count_list (textToAnalyze wikiLink) 40 - openParensInLinks (textToAnalyze wikiLink) = 0 \<and>
   count_list (textToAnalyze wikiLink) 41 - closeParensInLinks (textToAnalyze wikiLink) = 1"
proof -
  have a: "textToAnalyze unclosedInLink = unclosedInLink"
    by (simp add: textToAnalyze_def unclosedInLink_def regex_defs)
  have b: "textToAnalyze wikiLink = wikiLink"
    by (simp add: textToAnalyze_def wikiLink_def regex_defs)
  have "hasProblematicMarkdown unclosedInLink = True"
    by (simp add: hasProblematicMarkdown_def a) (simp add: unclosedInLink_def regex_defs)
  moreover have "count_list unclosedInLink 42 = 0"
    "matchRegex underscore None unclosedInLink = []"
    "count_list unclosedInLink 91 = count_list unclosedInLink 93"
    "links unclosedInLink = [unclosedInLink]"
    by (simp_all add: unclosedInLink_def regex_defs)
  moreover have "count_list unclosedInLink 40 - openParensInLinks unclosedInLink =
      count_list unclosedInLink 41 - closeParensInLinks unclosedInLink"
    by (simp add: unclosedInLink_def regex_defs)
  moreover have "hasProblematicMarkdown wikiLink = False"
    by (simp add: hasProblematicMarkdown_def b) (simp add: wikiLink_def regex_defs)
  moreover have "count_list wikiLink 40 - openParensInLinks wikiLink = 0"
    "count_list wikiLink 41 - closeParensInLinks wikiLink = 1"
    by (simp_all add: wikiLink_def regex_defs)
  ultimately show ?thesis by (simp only: a b simp_thms)
qed

theorem parentheses_of_links_are_counted_witness:
  "hasProblematicMarkdown unclosedInLink \<and> \<not> hasProblematicMarkdown wikiLink"
proof
  show "hasProblematicMarkdown unclosedInLink"
    using parentheses_of_links_are_counted by (elim conjE) (simp only: simp_thms)
  show "\<not> hasProblematicMarkdown wikiLink"
    using parentheses_of_links_are_counted by (elim conjE) (simp only: simp_thms)
qed

section \<open>The plain text\<close>

text \<open>
  C9. For every string, the empty one, one made of markup delimiters and one longer than
  the budget among them, \<open>markdownToPlainText\<close> returns a string and throws nothing: each
  of its eleven replacements is a search that goes through the text once.
\<close>

theorem markdownToPlainText_total:
  "\<exists>out. markdownToPlainText (JSString s) = Inr out"
  by (simp add: markdownToPlainText_def)

theorem markdownToPlainText_total_witness:
  "markdownToPlainText (JSString []) = Inr [] \<and>
   markdownToPlainText (JSString delimitersOnly) = Inr [95, 42, 96, 55357, 56599, 35, 62] \<and>
   (\<exists>out. markdownToPlainText (JSString delimitersOnly) = Inr out)"
proof (intro conjI)
  show "markdownToPlainText (JSString []) = Inr []"
    by (simp add: markdownToPlainText_def plainText_def)
  show "markdownToPlainText (JSString delimitersOnly) = Inr [95, 42, 96, 55357, 56599, 35, 62]"
    by (simp add: markdownToPlainText_def plainText_def delimitersOnly_def regex_defs)
  show "\<exists>out. markdownToPlainText (JSString delimitersOnly) = Inr out"
    by (rule markdownToPlainText_total)
qed

end
